theory Spec2Isabelle
  imports Complex_Main "HOL-Library.Multiset"
begin

section \<open>Behavioural cloning: dataset preparation and training loop\<close>

text \<open>
  A shallow embedding of \<^verbatim>\<open>ch10/behavioral_cloning/train.py\<close>.

  A recorded transition is a five-field tuple. The code reads field 0 (the state image)
  and field 1 (the action vector) and ignores the other three, which are kept here as one
  opaque field. State images are opaque (\<open>'s\<close>): the code only moves them around.
  An action vector is a list of numbers; the code only ever compares its components for
  equality with the integer components of a pattern, so the components are integers here.
\<close>

type_synonym action = "int list"

record ('s, 'x) transition =
  state :: 's
  action :: action
  unused :: 'x

text \<open>Python exceptions that the modelled code can raise.\<close>

datatype error =
    FileNotFoundError
  | UnpicklingError
  | ValueError
  | AxisError
  | AssertionError
  | RuntimeError

subsection \<open>Module constants\<close>

definition EPOCHS :: nat where
  "EPOCHS = 30"

definition MULTIPLY_RARE_EVENTS :: int where
  "MULTIPLY_RARE_EVENTS = 30"

text \<open>The literal of line 36: left+brake, right+brake, brake.\<close>

definition rare_events :: "action list" where
  "rare_events = [[-1, 0, 1], [1, 0, 1], [0, 0, 1]]"

text \<open>The literal of line 58: accelerate.\<close>

definition accelerate :: action where
  "accelerate = [0, 1, 0]"

subsection \<open>Rare-event inflation (lines 33 to 40)\<close>

text \<open>
  \<^verbatim>\<open>np.array_equal(d[1], a)\<close> holds exactly when both vectors have the same shape and the
  same components: list equality. \<^verbatim>\<open>(d,) * m\<close> is the empty tuple for \<open>m \<le> 0\<close>.
  The inner loop runs over the three rare patterns, the outer one over the transitions
  of the file, both appending to \<^verbatim>\<open>data_copy\<close>.
\<close>

fun rare_loop :: "int \<Rightarrow> ('s, 'x) transition \<Rightarrow> action list \<Rightarrow>
    ('s, 'x) transition list \<Rightarrow> ('s, 'x) transition list" where
  "rare_loop m d [] data_copy = data_copy"
| "rare_loop m d (a # as) data_copy =
     rare_loop m d as (if action d = a then data_copy @ replicate (nat m) d else data_copy)"

fun inflate_loop :: "int \<Rightarrow> ('s, 'x) transition list \<Rightarrow>
    ('s, 'x) transition list \<Rightarrow> ('s, 'x) transition list" where
  "inflate_loop m [] data_copy = data_copy"
| "inflate_loop m (d # ds) data_copy = inflate_loop m ds (rare_loop m d rare_events data_copy)"

definition inflate :: "int \<Rightarrow> ('s, 'x) transition list \<Rightarrow> ('s, 'x) transition list" where
  "inflate m data = (if m > 1 then inflate_loop m data data else data)"

subsection \<open>Random generators\<close>

text \<open>
  The code draws from two generators, Python's \<^verbatim>\<open>random\<close> and \<^verbatim>\<open>np.random\<close>. A
  generator is the sequence of the values it is going to return and the number of
  values returned so far.
\<close>

record 'a gen =
  draws :: "nat \<Rightarrow> 'a"
  pos :: nat

definition next_draw :: "'a gen \<Rightarrow> 'a \<times> 'a gen" where
  "next_draw g = (draws g (pos g), g\<lparr>pos := Suc (pos g)\<rparr>)"

text \<open>\<^verbatim>\<open>np.random.rand(n)\<close>: the next \<open>n\<close> draws.\<close>

definition rand :: "nat \<Rightarrow> real gen \<Rightarrow> real list \<times> real gen" where
  "rand n g = (map (\<lambda>t. draws g (pos g + t)) [0..<n], g\<lparr>pos := pos g + n\<rparr>)"

subsection \<open>Shuffling (line 42)\<close>

text \<open>
  \<^verbatim>\<open>random.shuffle\<close> is the library's in-place Fisher-Yates loop: for \<open>i\<close> from
  \<open>len - 1\<close> down to \<open>1\<close> it draws \<open>j\<close> with \<open>0 \<le> j \<le> i\<close> and swaps the elements
  at \<open>i\<close> and \<open>j\<close>. The raw draw is reduced modulo \<open>i + 1\<close>.
\<close>

fun fisher_yates :: "nat \<Rightarrow> nat gen \<Rightarrow> 'a list \<Rightarrow> 'a list \<times> nat gen" where
  "fisher_yates 0 g xs = (xs, g)"
| "fisher_yates (Suc i) g xs =
     (let (r, g') = next_draw g;
          j = r mod (Suc (Suc i))
      in fisher_yates i g' (xs[Suc i := xs ! j, j := xs ! Suc i]))"

definition shuffle :: "nat gen \<Rightarrow> 'a list \<Rightarrow> 'a list \<times> nat gen" where
  "shuffle g xs = fisher_yates (length xs - 1) g xs"

subsection \<open>Label derivation (lines 48 to 50)\<close>

text \<open>
  \<^verbatim>\<open>np.all(actions == a, axis=1)\<close> on the stacked action vectors. The comparison
  broadcasts: the rows must all have one length \<open>k\<close>, and a pattern of length \<open>p\<close> is
  comparable when \<open>k = p\<close>, \<open>k = 1\<close> or \<open>p = 1\<close>. Otherwise (ragged rows, or lengths
  that do not broadcast) the comparison yields no two-dimensional array and the
  reduction along axis 1 raises.
\<close>

definition broadcast_eq :: "action \<Rightarrow> action \<Rightarrow> bool" where
  "broadcast_eq row a =
     (if length row = length a then row = a
      else if length row = 1 then list_all (\<lambda>x. x = hd row) a
      else list_all (\<lambda>x. x = hd a) row)"

definition rows_equal :: "action list \<Rightarrow> action \<Rightarrow> error + bool list" where
  "rows_equal actions a =
     (case actions of
        [] \<Rightarrow> Inl AxisError
      | r # _ \<Rightarrow>
          if list_all (\<lambda>row. length row = length r) actions
             \<and> (length r = length a \<or> length r = 1 \<or> length a = 1)
          then Inr (map (\<lambda>row. broadcast_eq row a) actions)
          else Inl AxisError)"

text \<open>\<^verbatim>\<open>xs[mask] = v\<close> with a scalar \<open>v\<close>.\<close>

definition assign_where :: "bool list \<Rightarrow> 'a \<Rightarrow> 'a list \<Rightarrow> 'a list" where
  "assign_where sel v xs = map (\<lambda>(b, x). if b then v else x) (zip sel xs)"

text \<open>The loop over \<^verbatim>\<open>enumerate(available_actions)\<close>; \<open>i\<close> is the running index.\<close>

fun label_loop :: "nat \<Rightarrow> action list \<Rightarrow> action list \<Rightarrow> int list \<Rightarrow> error + int list" where
  "label_loop i [] actions act_classes = Inr act_classes"
| "label_loop i (a # as) actions act_classes =
     (case rows_equal actions a of
        Inl e \<Rightarrow> Inl e
      | Inr sel \<Rightarrow> label_loop (Suc i) as actions (assign_where sel (int i) act_classes))"

definition to_classes :: "action list \<Rightarrow> action list \<Rightarrow> error + int list" where
  "to_classes available_actions actions =
     label_loop 0 available_actions actions (replicate (length actions) (- 1))"

subsection \<open>Filtering and down-sampling (lines 53 to 62)\<close>

text \<open>\<^verbatim>\<open>xs[mask]\<close> with a boolean mask of the length of \<open>xs\<close>.\<close>

definition compress :: "bool list \<Rightarrow> 'a list \<Rightarrow> 'a list" where
  "compress sel xs = map snd (filter fst (zip sel xs))"

text \<open>\<^verbatim>\<open>list.index\<close>: the first position of a value, or no position (ValueError).\<close>

fun index_of :: "'a list \<Rightarrow> 'a \<Rightarrow> nat option" where
  "index_of [] x = None"
| "index_of (y # ys) x = (if y = x then Some 0 else map_option Suc (index_of ys x))"

text \<open>
  \<^verbatim>\<open>xs[sel] = vals\<close> with an array \<open>vals\<close>: the values go, in order, to the positions
  that \<open>sel\<close> selects. The only call passes as many values as \<open>sel\<close> selects; the last
  equation covers the other shapes, that the call cannot produce.
\<close>

fun put_where :: "bool list \<Rightarrow> 'a list \<Rightarrow> 'a list \<Rightarrow> 'a list" where
  "put_where (True # sel) (v # vals) (x # xs) = v # put_where sel vals xs"
| "put_where (False # sel) vals (x # xs) = x # put_where sel vals xs"
| "put_where sel vals xs = xs"

text \<open>
  Lines 58 to 62, \<open>ai\<close> being \<^verbatim>\<open>available_actions.index([0, 1, 0])\<close>: the mask of
  lines 58 to 60, then its application to both arrays. A draw is a double, and no double
  lies between the double \<^verbatim>\<open>0.7\<close> and the real \<open>7/10\<close>, so that the comparison is the
  one of the reals.
\<close>

definition non_accel_mask :: "int \<Rightarrow> real gen \<Rightarrow> int list \<Rightarrow> bool list \<times> real gen" where
  "non_accel_mask ai g act_classes =
     (let non_accel = map (\<lambda>c. c \<noteq> ai) act_classes;
          n = length (compress (map Not non_accel) act_classes);
          (rs, g') = rand n g;
          drop_mask = map (\<lambda>r. r > 7 / 10) rs
      in (put_where (map Not non_accel) drop_mask non_accel, g'))"

definition downsample :: "int \<Rightarrow> real gen \<Rightarrow> 's list \<Rightarrow> int list \<Rightarrow>
    ('s list \<times> int list) \<times> real gen" where
  "downsample ai g states act_classes =
     (let (non_accel, g') = non_accel_mask ai g act_classes
      in ((compress non_accel states, compress non_accel act_classes), g'))"

text \<open>
  Lines 45 to 70 on the shuffled transitions. Unpacking \<^verbatim>\<open>zip(*data)\<close> into five names
  raises ValueError when there is no transition. The printed statistics are left out.
\<close>

definition prepare :: "action list \<Rightarrow> real gen \<Rightarrow> ('s, 'x) transition list \<Rightarrow>
    (error + 's list \<times> int list) \<times> real gen" where
  "prepare available_actions g data =
     (if data = [] then (Inl ValueError, g)
      else case to_classes available_actions (map action data) of
        Inl e \<Rightarrow> (Inl e, g)
      | Inr act_classes \<Rightarrow>
          (let valid = map (\<lambda>c. c \<noteq> - 1) act_classes;
               states = compress valid (map state data);
               act_classes = compress valid act_classes
           in case index_of available_actions accelerate of
                None \<Rightarrow> (Inl ValueError, g)
              | Some ai \<Rightarrow>
                  (let (r, g') = downsample (int ai) g states act_classes
                   in (Inr r, g'))))"

subsection \<open>The world of a run\<close>

text \<open>
  What the code reads and writes outside its own variables: the data file, the two random
  generators, and the checkpoint file. \<open>calls\<close> records, in order, each start of one of
  the four functions whose order the specification speaks of.
\<close>

datatype 'a pickle_file = Missing | Corrupt | Pickled 'a

datatype event = ReadData | TrainEpoch nat | Test nat | Save nat

record ('s, 'x, 'm) world =
  data_file :: "('s, 'x) transition list pickle_file"
  py_random :: "nat gen"
  np_random :: "real gen"
  model_file :: "'m option"
  calls :: "event list"

text \<open>
  Lines 27 and 28: opening a missing file raises, and so does reading one that is no
  gzipped pickle (\<open>UnpicklingError\<close> stands for what the decompression and the unpickling
  raise).
\<close>

definition load_data :: "('s, 'x, 'm) world \<Rightarrow> error + ('s, 'x) transition list" where
  "load_data w =
     (case data_file w of
        Missing \<Rightarrow> Inl FileNotFoundError
      | Corrupt \<Rightarrow> Inl UnpicklingError
      | Pickled data \<Rightarrow> Inr data)"

text \<open>
  \<^verbatim>\<open>read_data\<close>. \<^verbatim>\<open>available_actions\<close> is a table of another module
  (\<^verbatim>\<open>ch10.behavioral_cloning.util\<close>), so it is a parameter; the multiplier is one as
  well, for the statements that speak of other values than the configured one.
\<close>

definition read_data_with :: "int \<Rightarrow> action list \<Rightarrow> ('s, 'x, 'm) world \<Rightarrow>
    (error + 's list \<times> int list) \<times> ('s, 'x, 'm) world" where
  "read_data_with m available_actions w =
     (let w = w\<lparr>calls := calls w @ [ReadData]\<rparr>
      in case load_data w of
        Inl e \<Rightarrow> (Inl e, w)
      | Inr data \<Rightarrow>
          (let data = inflate m data;
               (data, g) = shuffle (py_random w) data;
               w = w\<lparr>py_random := g\<rparr>;
               (r, g) = prepare available_actions (np_random w) data
           in (r, w\<lparr>np_random := g\<rparr>)))"

definition read_data :: "action list \<Rightarrow> ('s, 'x, 'm) world \<Rightarrow>
    (error + 's list \<times> int list) \<times> ('s, 'x, 'm) world" where
  "read_data = read_data_with MULTIPLY_RARE_EVENTS"

subsection \<open>Datasets (lines 76 to 120)\<close>

text \<open>
  A tensor dataset holds the two parallel tensors; building it asserts that they have the
  same first dimension. A loader is its dataset with the shuffle flag; batching is the
  framework's. Building a loader that shuffles draws up a random sampler, which raises
  ValueError over a dataset of no sample; a loader that does not shuffle takes any
  dataset. \<^verbatim>\<open>np.moveaxis\<close> permutes the axes of every image, which \<open>chan_first\<close> stands
  for. \<^verbatim>\<open>int(len(x) * 0.85)\<close> is a product of doubles, truncated; for every length below
  \<open>2 ^ 50\<close> the rounding of the product does not reach the next integer, and the value is
  the floor of the real product.
\<close>

definition TRAIN_VAL_SPLIT :: real where
  "TRAIN_VAL_SPLIT = 85 / 100"

record 't loader =
  tensor_x :: "'t list"
  tensor_y :: "int list"
  shuffled :: bool

definition tensor_dataset :: "'t list \<Rightarrow> int list \<Rightarrow> error + 't list \<times> int list" where
  "tensor_dataset x y = (if length x = length y then Inr (x, y) else Inl AssertionError)"

definition data_loader :: "'t list \<times> int list \<Rightarrow> bool \<Rightarrow> error + 't loader" where
  "data_loader dataset shuffle_flag =
     (if shuffle_flag \<and> fst dataset = [] then Inl ValueError
      else Inr \<lparr>tensor_x = fst dataset, tensor_y = snd dataset, shuffled = shuffle_flag\<rparr>)"

definition create_datasets :: "action list \<Rightarrow> ('s \<Rightarrow> 't) \<Rightarrow> ('s, 'x, 'm) world \<Rightarrow>
    (error + 't loader \<times> 't loader) \<times> ('s, 'x, 'm) world" where
  "create_datasets available_actions chan_first w =
     (case read_data available_actions w of
        (Inl e, w) \<Rightarrow> (Inl e, w)
      | (Inr (x, y), w) \<Rightarrow>
          (let x = map chan_first x;
               x_train = take (nat \<lfloor>real (length x) * TRAIN_VAL_SPLIT\<rfloor>) x;
               y_train = take (nat \<lfloor>real (length y) * TRAIN_VAL_SPLIT\<rfloor>) y
           in case tensor_dataset x_train y_train of
                Inl e \<Rightarrow> (Inl e, w)
              | Inr train_set \<Rightarrow>
                  (case data_loader train_set True of
                     Inl e \<Rightarrow> (Inl e, w)
                   | Inr train_loader \<Rightarrow>
                       (let x_test = drop (length x_train) x;
                            y_test = drop (length y_train) y
                        in case tensor_dataset x_test y_test of
                             Inl e \<Rightarrow> (Inl e, w)
                           | Inr test_set \<Rightarrow>
                               (case data_loader test_set False of
                                  Inl e \<Rightarrow> (Inl e, w)
                                | Inr val_order \<Rightarrow> (Inr (train_loader, val_order), w))))))"

subsection \<open>The training loop (lines 228 to 250)\<close>

text \<open>
  \<^verbatim>\<open>train_epoch\<close> and \<^verbatim>\<open>test\<close> are passes of the framework over a loader: \<open>fit\<close> returns
  the updated model, \<open>evaluate\<close> the loss and accuracy it prints, and either may raise.
  \<open>'m\<close> is everything \<^verbatim>\<open>state_dict\<close> saves.
\<close>

fun epoch_loop :: "('t loader \<Rightarrow> 'm \<Rightarrow> error + 'm) \<Rightarrow> ('t loader \<Rightarrow> 'm \<Rightarrow> error + 'r) \<Rightarrow>
    't loader \<Rightarrow> 't loader \<Rightarrow> nat list \<Rightarrow> 'm \<Rightarrow> ('s, 'x, 'm) world \<Rightarrow>
    (error + 'm) \<times> ('s, 'x, 'm) world" where
  "epoch_loop fit evaluate train_loader val_order [] model w = (Inr model, w)"
| "epoch_loop fit evaluate train_loader val_order (epoch # epochs) model w =
     (let w = w\<lparr>calls := calls w @ [TrainEpoch epoch]\<rparr>
      in case fit train_loader model of
        Inl e \<Rightarrow> (Inl e, w)
      | Inr model \<Rightarrow>
          (let w = w\<lparr>calls := calls w @ [Test epoch]\<rparr>
           in case evaluate val_order model of
             Inl e \<Rightarrow> (Inl e, w)
           | Inr _ \<Rightarrow>
               (let w = w\<lparr>calls := calls w @ [Save epoch], model_file := Some model\<rparr>
                in epoch_loop fit evaluate train_loader val_order epochs model w)))"

definition train :: "('t loader \<Rightarrow> 'm \<Rightarrow> error + 'm) \<Rightarrow> ('t loader \<Rightarrow> 'm \<Rightarrow> error + 'r) \<Rightarrow>
    action list \<Rightarrow> ('s \<Rightarrow> 't) \<Rightarrow> 'm \<Rightarrow> ('s, 'x, 'm) world \<Rightarrow>
    (error + 'm) \<times> ('s, 'x, 'm) world" where
  "train fit evaluate available_actions chan_first model w =
     (case create_datasets available_actions chan_first w of
        (Inl e, w) \<Rightarrow> (Inl e, w)
      | (Inr (train_loader, val_order), w) \<Rightarrow>
          epoch_loop fit evaluate train_loader val_order [0..<EPOCHS] model w)"

text \<open>
  Loading the module runs its top-level statements, among them the call of line 73,
  whose result is dropped. A run of the training loop is the loading of the module
  followed by a call of \<^verbatim>\<open>train\<close>.
\<close>

definition load_module :: "action list \<Rightarrow> ('s, 'x, 'm) world \<Rightarrow>
    (error + unit) \<times> ('s, 'x, 'm) world" where
  "load_module available_actions w =
     (case read_data available_actions w of
        (Inl e, w) \<Rightarrow> (Inl e, w)
      | (Inr _, w) \<Rightarrow> (Inr (), w))"

definition run :: "('t loader \<Rightarrow> 'm \<Rightarrow> error + 'm) \<Rightarrow> ('t loader \<Rightarrow> 'm \<Rightarrow> error + 'r) \<Rightarrow>
    action list \<Rightarrow> ('s \<Rightarrow> 't) \<Rightarrow> 'm \<Rightarrow> ('s, 'x, 'm) world \<Rightarrow>
    (error + 'm) \<times> ('s, 'x, 'm) world" where
  "run fit evaluate available_actions chan_first model w =
     (case load_module available_actions w of
        (Inl e, w) \<Rightarrow> (Inl e, w)
      | (Inr _, w) \<Rightarrow> train fit evaluate available_actions chan_first model w)"

subsection \<open>Auxiliary notions for the statements\<close>

text \<open>
  The class that the loop of lines 49 and 50 leaves for one action vector \<open>r\<close> whose class
  was \<open>c\<close> before, when the comparison is plain equality: the index of the last pattern
  equal to \<open>r\<close>, counted from \<open>i\<close>.
\<close>

fun last_match :: "nat \<Rightarrow> action list \<Rightarrow> action \<Rightarrow> int \<Rightarrow> int" where
  "last_match i [] r c = c"
| "last_match i (a # as) r c = last_match (Suc i) as r (if r = a then int i else c)"

definition class_of :: "action list \<Rightarrow> action \<Rightarrow> int" where
  "class_of available_actions r = last_match 0 available_actions r (- 1)"

text \<open>Every action vector and every pattern has the three components of the environment.\<close>

definition three_components :: "action list \<Rightarrow> bool" where
  "three_components as = list_all (\<lambda>a. length a = 3) as"

subsection \<open>Concrete inputs\<close>

text \<open>
  A table of action patterns with the three rare ones and the accelerate one, four
  recorded transitions (two accelerate, one left, one of no pattern), and a world that
  holds them. None of the four is rare, so that the inflation leaves them alone.
\<close>

definition example_actions :: "action list" where
  "example_actions =
     [[0, 0, 0], [- 1, 0, 0], [- 1, 0, 1], [1, 0, 0], [1, 0, 1], [0, 1, 0], [0, 0, 1]]"

definition example_data :: "(nat, unit) transition list" where
  "example_data =
     [\<lparr>state = 0, action = [0, 1, 0], unused = ()\<rparr>,
      \<lparr>state = 1, action = [- 1, 0, 0], unused = ()\<rparr>,
      \<lparr>state = 2, action = [1, 1, 0], unused = ()\<rparr>,
      \<lparr>state = 3, action = [0, 1, 0], unused = ()\<rparr>]"

definition example_world :: "(nat, unit, nat) world" where
  "example_world =
     \<lparr>data_file = Pickled example_data,
      py_random = \<lparr>draws = (\<lambda>t. 3 * t + 1), pos = 0\<rparr>,
      np_random = \<lparr>draws = (\<lambda>t. if t = 0 then 9 / 10 else 1 / 2), pos = 0\<rparr>,
      model_file = None, calls = []\<rparr>"

text \<open>
  The dataset of the end-to-end property: one transition each of accelerate, brake,
  left+brake and a vector of no pattern, with a table whose first three patterns are
  these three, in a world where every number of \<^verbatim>\<open>np.random\<close> is \<open>0.9\<close>, so that the
  down-sampling drops nothing.
\<close>

definition four_actions :: "action list" where
  "four_actions = [[0, 1, 0], [0, 0, 1], [- 1, 0, 1]]"

definition four_data :: "(nat, unit) transition list" where
  "four_data =
     [\<lparr>state = 0, action = [0, 1, 0], unused = ()\<rparr>,
      \<lparr>state = 1, action = [0, 0, 1], unused = ()\<rparr>,
      \<lparr>state = 2, action = [- 1, 0, 1], unused = ()\<rparr>,
      \<lparr>state = 3, action = [0, 0, 0], unused = ()\<rparr>]"

definition four_world :: "(nat, unit, nat) world" where
  "four_world =
     \<lparr>data_file = Pickled four_data,
      py_random = \<lparr>draws = (\<lambda>t. 7 * t + 3), pos = 0\<rparr>,
      np_random = \<lparr>draws = (\<lambda>t. 9 / 10), pos = 0\<rparr>,
      model_file = None, calls = []\<rparr>"

section \<open>Properties\<close>

subsection \<open>Inflation: multiplicities\<close>

lemma mset_rare_loop:
  "mset (rare_loop m d pats data_copy) =
     mset data_copy + replicate_mset (count_list pats (action d) * nat m) d"
  by (induction pats arbitrary: data_copy) (simp_all add: multiset_eq_iff)

lemma count_rare_events:
  "count_list rare_events a = (if a \<in> set rare_events then 1 else 0)"
  by (simp add: rare_events_def)

lemma mset_inflate_loop:
  "mset (inflate_loop m ds data_copy) =
     mset data_copy + repeat_mset (nat m) (filter_mset (\<lambda>d. action d \<in> set rare_events) (mset ds))"
proof (induction ds arbitrary: data_copy)
  case Nil
  then show ?case by simp
next
  case (Cons d ds)
  show ?case
    by (simp add: Cons.IH mset_rare_loop count_rare_events multiset_eq_iff)
qed





text \<open>
  Claim C10, as stated, fails for the multiplier \<open>0\<close>, one of the values that are not
  above one: the rare transition is there once, and once is \<open>1 + 0\<close> times.
\<close>

theorem inflate_skipped_counterexample:
  "int (count_list (inflate 0 [\<lparr>state = (0::nat), action = [0, 0, 1], unused = ()\<rparr>])
        \<lparr>state = (0::nat), action = [0, 0, 1], unused = ()\<rparr>)
     = (1 + 0) * int (count_list [\<lparr>state = (0::nat), action = [0, 0, 1], unused = ()\<rparr>]
        \<lparr>state = (0::nat), action = [0, 0, 1], unused = ()\<rparr>)"
  by (simp add: inflate_def)

text \<open>
  Claim C10, amended. With a multiplier of one, or any multiplier that is not above one,
  the inflation step is skipped: the collection before the shuffle is the input itself,
  so that a rare transition that occurs once in the input occurs once. That is not
  \<open>1 + m\<close> times, except for \<open>m = 0\<close>, where \<open>1 + m\<close> is one as well.
\<close>

theorem inflate_skipped:
  "m \<le> 1 \<Longrightarrow>
     inflate m data = data \<and>
     (m \<noteq> 0 \<longrightarrow> d \<in> set data \<longrightarrow>
        int (count_list (inflate m data) d) \<noteq> (1 + m) * int (count_list data d))"
proof -
  assume m: "m \<le> 1"
  have eq: "inflate m data = data"
    using m by (simp add: inflate_def)
  have "int (count_list data d) \<noteq> (1 + m) * int (count_list data d)"
    if "m \<noteq> 0" "d \<in> set data"
  proof -
    have "0 < int (count_list data d)"
      using that(2) count_list_0_iff [of data d] by simp
    moreover have "1 + m \<noteq> 1"
      using that(1) by simp
    ultimately show ?thesis
      by simp
  qed
  with eq show ?thesis
    by simp
qed

theorem inflate_skipped_witness:
  "(1::int) \<le> 1 \<and>
   inflate 1 [\<lparr>state = (0::nat), action = [0, 0, 1], unused = ()\<rparr>]
     = [\<lparr>state = (0::nat), action = [0, 0, 1], unused = ()\<rparr>] \<and>
   count_list (inflate 1 [\<lparr>state = (0::nat), action = [0, 0, 1], unused = ()\<rparr>])
     \<lparr>state = (0::nat), action = [0, 0, 1], unused = ()\<rparr> = 1"
  using inflate_skipped [of 1 "[\<lparr>state = (0::nat), action = [0, 0, 1], unused = ()\<rparr>]"
     "\<lparr>state = (0::nat), action = [0, 0, 1], unused = ()\<rparr>"]
  by simp

subsection \<open>The shuffle permutes\<close>

lemma fisher_yates_mset:
  "i < length xs \<Longrightarrow> mset (fst (fisher_yates i g xs)) = mset xs"
proof (induction i arbitrary: g xs)
  case 0
  then show ?case by simp
next
  case (Suc i)
  define j where "j = draws g (pos g) mod Suc (Suc i)"
  define ys where "ys = xs[Suc i := xs ! j, j := xs ! Suc i]"
  have j: "j < length xs"
  proof -
    have "j < Suc (Suc i)" unfolding j_def by simp
    with Suc.prems show ?thesis by simp
  qed
  have "mset ys = mset xs"
    unfolding ys_def using mset_swap [OF j Suc.prems] .
  moreover have "i < length ys"
    using Suc.prems by (simp add: ys_def)
  ultimately have "mset (fst (fisher_yates i (g\<lparr>pos := Suc (pos g)\<rparr>) ys)) = mset xs"
    using Suc.IH [of ys] by simp
  then show ?case
    by (simp add: next_draw_def Let_def j_def ys_def)
qed

lemma shuffle_mset: "mset (fst (shuffle g xs)) = mset xs"
proof (cases xs)
  case Nil
  then show ?thesis by (simp add: shuffle_def)
next
  case (Cons x xs')
  then have "length xs - 1 < length xs" by simp
  then show ?thesis
    unfolding shuffle_def by (rule fisher_yates_mset)
qed

lemma shuffle_set: "set (fst (shuffle g xs)) = set xs"
  using shuffle_mset [of g xs] by (metis set_mset_mset)

subsection \<open>Label derivation\<close>

lemma rows_equal_three:
  assumes "actions \<noteq> []" "\<forall>r \<in> set actions. length r = length a"
  shows "rows_equal actions a = Inr (map (\<lambda>r. r = a) actions)"
proof -
  obtain r rs where ac: "actions = r # rs"
    using assms(1) by (cases actions) auto
  have "list_all (\<lambda>row. length row = length r) actions"
    using assms(2) ac by (simp add: list_all_iff)
  moreover have "length r = length a"
    using assms(2) ac by simp
  moreover have "map (\<lambda>row. broadcast_eq row a) actions = map (\<lambda>r. r = a) actions"
    using assms(2) by (simp add: broadcast_eq_def)
  ultimately show ?thesis
    using ac by (simp add: rows_equal_def)
qed

lemma assign_where_eq:
  "length actions = length cs \<Longrightarrow>
   assign_where (map (\<lambda>r. r = a) actions) v cs
     = map (\<lambda>(r, c). if r = a then v else c) (zip actions cs)"
  by (induction actions cs rule: list_induct2) (simp_all add: assign_where_def)

lemma label_loop_eq:
  assumes "actions \<noteq> []" "\<forall>r \<in> set actions. \<forall>a \<in> set pats. length r = length a"
    "length cs = length actions"
  shows "label_loop i pats actions cs = Inr (map (\<lambda>(r, c). last_match i pats r c) (zip actions cs))"
  using assms
proof (induction pats arbitrary: i cs)
  case Nil
  then show ?case by (simp add: map_snd_zip [symmetric] case_prod_unfold)
next
  case (Cons a as)
  have re: "rows_equal actions a = Inr (map (\<lambda>r. r = a) actions)"
    using Cons.prems by (intro rows_equal_three) auto
  let ?cs = "map (\<lambda>(r, c). if r = a then int i else c) (zip actions cs)"
  have len: "length ?cs = length actions"
    using Cons.prems(3) by simp
  have "label_loop (Suc i) as actions ?cs
      = Inr (map (\<lambda>(r, c). last_match (Suc i) as r c) (zip actions ?cs))"
    using Cons.prems(1,2) len by (intro Cons.IH) auto
  moreover have "map (\<lambda>(r, c). last_match (Suc i) as r c) (zip actions ?cs)
      = map (\<lambda>(r, c). last_match i (a # as) r c) (zip actions cs)"
    using Cons.prems(3) [symmetric] by (induction actions cs rule: list_induct2) simp_all
  ultimately show ?case
    using re Cons.prems(3) by (simp add: assign_where_eq [OF Cons.prems(3) [symmetric]])
qed

lemma to_classes_eq:
  assumes "actions \<noteq> []" "\<forall>r \<in> set actions. \<forall>a \<in> set pats. length r = length a"
  shows "to_classes pats actions = Inr (map (class_of pats) actions)"
proof -
  have "map (\<lambda>(r, c). last_match 0 pats r c) (zip actions (replicate (length actions) (- 1)))
      = map (class_of pats) actions"
    by (induction actions) (simp_all add: class_of_def)
  then show ?thesis
    using label_loop_eq [OF assms, of "replicate (length actions) (- 1)" 0]
    by (simp add: to_classes_def)
qed

lemma last_match_cases:
  "(last_match i pats r c = c \<and> r \<notin> set pats) \<or>
   (int i \<le> last_match i pats r c \<and> last_match i pats r c < int i + int (length pats)
      \<and> pats ! nat (last_match i pats r c - int i) = r)"
proof (induction pats arbitrary: i c)
  case Nil
  then show ?case by simp
next
  case (Cons a as)
  let ?l = "last_match (Suc i) as r (if r = a then int i else c)"
  from Cons.IH [of "Suc i" "if r = a then int i else c"]
  consider (keep) "?l = (if r = a then int i else c)" "r \<notin> set as"
    | (later) "int (Suc i) \<le> ?l" "?l < int (Suc i) + int (length as)"
        "as ! nat (?l - int (Suc i)) = r"
    by blast
  then show ?case
  proof cases
    case keep
    then show ?thesis by (cases "r = a") simp_all
  next
    case later
    have "nat (?l - int i) = Suc (nat (?l - int (Suc i)))"
      using later(1) by simp
    then have "(a # as) ! nat (?l - int i) = r"
      using later(3) by simp
    then show ?thesis
      using later(1,2) by simp
  qed
qed

lemma class_of_cases:
  "(class_of acts r = - 1 \<and> r \<notin> set acts) \<or>
   (0 \<le> class_of acts r \<and> class_of acts r < int (length acts)
      \<and> acts ! nat (class_of acts r) = r)"
  using last_match_cases [of 0 acts r "- 1"] by (simp add: class_of_def)

subsection \<open>Boolean indexing\<close>

lemma compress_Nil [simp]: "compress [] xs = []" "compress sel [] = []"
  by (simp_all add: compress_def)

lemma compress_Cons [simp]:
  "compress (b # sel) (x # xs) = (if b then x # compress sel xs else compress sel xs)"
  by (simp add: compress_def)

lemma compress_map: "compress sel (map f xs) = map f (compress sel xs)"
proof (induction sel arbitrary: xs)
  case Nil
  then show ?case by simp
next
  case (Cons b sel)
  then show ?case by (cases xs) simp_all
qed

lemma compress_pred: "compress (map P xs) xs = filter P xs"
  by (induction xs) simp_all

lemma compress_pred_map: "compress (map P xs) (map f xs) = map f (filter P xs)"
  by (simp add: compress_map compress_pred)

lemma compress_zip:
  "compress sel (zip xs ys) = zip (compress sel xs) (compress sel ys)"
proof (induction sel arbitrary: xs ys)
  case Nil
  then show ?case by simp
next
  case (Cons b sel)
  show ?case
  proof (cases xs)
    case Nil
    then show ?thesis by simp
  next
    case xs: (Cons x xs')
    show ?thesis
    proof (cases ys)
      case Nil
      then show ?thesis by simp
    next
      case (Cons y ys')
      with xs Cons.IH show ?thesis by simp
    qed
  qed
qed

lemma mset_compress: "mset (compress sel xs) \<subseteq># mset xs"
proof (induction sel arbitrary: xs)
  case Nil
  then show ?case by simp
next
  case (Cons b sel)
  show ?case
  proof (cases xs)
    case Nil
    then show ?thesis by simp
  next
    case (Cons x xs')
    have "mset (compress sel xs') \<subseteq># add_mset x (mset xs')"
      using Cons.IH [of xs'] by (rule subset_mset.order_trans) simp
    with Cons Cons.IH [of xs'] show ?thesis
      by simp
  qed
qed

lemma length_compress_same:
  "length xs = length ys \<Longrightarrow> length (compress sel xs) = length (compress sel ys)"
proof (induction sel arbitrary: xs ys)
  case Nil
  then show ?case by simp
next
  case (Cons b sel)
  then show ?case by (cases xs; cases ys) simp_all
qed

subsection \<open>The mask of the down-sampling\<close>

lemma put_where_keep:
  assumes "length rs = length (filter (\<lambda>p. cl p = ai) ps)"
  shows "length (put_where (map (\<lambda>p. cl p = ai) ps) (map P rs) (map (\<lambda>p. cl p \<noteq> ai) ps))
           = length ps
    \<and> filter (\<lambda>p. cl p \<noteq> ai)
        (compress (put_where (map (\<lambda>p. cl p = ai) ps) (map P rs) (map (\<lambda>p. cl p \<noteq> ai) ps)) ps)
         = filter (\<lambda>p. cl p \<noteq> ai) ps
    \<and> filter (\<lambda>p. cl p = ai)
        (compress (put_where (map (\<lambda>p. cl p = ai) ps) (map P rs) (map (\<lambda>p. cl p \<noteq> ai) ps)) ps)
         = map fst (filter (\<lambda>(p, r). P r) (zip (filter (\<lambda>p. cl p = ai) ps) rs))"
  using assms
proof (induction ps arbitrary: rs)
  case Nil
  then show ?case by simp
next
  case (Cons p ps)
  show ?case
  proof (cases "cl p = ai")
    case False
    with Cons.prems have "length rs = length (filter (\<lambda>p. cl p = ai) ps)"
      by simp
    from Cons.IH [OF this] False show ?thesis
      by simp
  next
    case True
    with Cons.prems obtain r rs' where rs: "rs = r # rs'"
      and len: "length rs' = length (filter (\<lambda>p. cl p = ai) ps)"
      by (cases rs) auto
    from Cons.IH [OF len] True rs show ?thesis
      by simp
  qed
qed

lemma rand_fst: "fst (rand n g) = map (\<lambda>t. draws g (pos g + t)) [0..<n]"
  by (simp add: rand_def)

lemma non_accel_mask_eq:
  "fst (non_accel_mask ai g (map cl ps)) =
     put_where (map (\<lambda>p. cl p = ai) ps)
       (map (\<lambda>r. r > 7 / 10) (fst (rand (length (filter (\<lambda>p. cl p = ai) ps)) g)))
       (map (\<lambda>p. cl p \<noteq> ai) ps)"
proof -
  have "compress (map Not (map (\<lambda>c. c \<noteq> ai) (map cl ps))) (map cl ps)
      = map cl (filter (\<lambda>p. cl p = ai) ps)"
    using compress_pred_map [where P = "\<lambda>p. cl p = ai" and f = cl and xs = ps]
    by (simp add: comp_def)
  then show ?thesis
    by (simp add: non_accel_mask_def Let_def comp_def split: prod.splits)
qed

lemma non_accel_mask_props:
  fixes cl :: "'a \<Rightarrow> int"
  defines "km \<equiv> \<lambda>ai g ps. fst (non_accel_mask ai g (map cl ps))"
  shows "length (km ai g ps) = length ps"
    and "filter (\<lambda>p. cl p \<noteq> ai) (compress (km ai g ps) ps) = filter (\<lambda>p. cl p \<noteq> ai) ps"
    and "filter (\<lambda>p. cl p = ai) (compress (km ai g ps) ps)
       = map fst (filter (\<lambda>(p, r). r > 7 / 10)
           (zip (filter (\<lambda>p. cl p = ai) ps)
                (fst (rand (length (filter (\<lambda>p. cl p = ai) ps)) g))))"
proof -
  let ?rs = "fst (rand (length (filter (\<lambda>p. cl p = ai) ps)) g)"
  have "length ?rs = length (filter (\<lambda>p. cl p = ai) ps)"
    by (simp add: rand_fst)
  from put_where_keep [OF this, of "\<lambda>r. r > 7 / 10"]
  show "length (km ai g ps) = length ps"
    and "filter (\<lambda>p. cl p \<noteq> ai) (compress (km ai g ps) ps) = filter (\<lambda>p. cl p \<noteq> ai) ps"
    and "filter (\<lambda>p. cl p = ai) (compress (km ai g ps) ps)
       = map fst (filter (\<lambda>(p, r). r > 7 / 10) (zip (filter (\<lambda>p. cl p = ai) ps) ?rs))"
    unfolding km_def non_accel_mask_eq by blast+
qed

lemma downsample_fst:
  "fst (downsample ai g xs cs)
     = (compress (fst (non_accel_mask ai g cs)) xs, compress (fst (non_accel_mask ai g cs)) cs)"
  by (simp add: downsample_def split: prod.splits)

subsection \<open>The prepared arrays as a selection of the transitions\<close>

text \<open>
  With action vectors and patterns of one shape, the transitions that come out of
  lines 45 to 62: those with a recognised action, thinned by the mask of lines 58 to 60.
\<close>

lemma prepare_Inr:
  assumes rows: "rows \<noteq> []"
    and shape: "\<forall>d \<in> set rows. \<forall>a \<in> set acts. length (action d) = length a"
    and ai: "index_of acts accelerate = Some ai"
  shows "fst (prepare acts g rows) =
     Inr (map state
            (compress (fst (non_accel_mask (int ai) g
                 (map (\<lambda>d. class_of acts (action d))
                    (filter (\<lambda>d. class_of acts (action d) \<noteq> - 1) rows))))
               (filter (\<lambda>d. class_of acts (action d) \<noteq> - 1) rows)),
          map (\<lambda>d. class_of acts (action d))
            (compress (fst (non_accel_mask (int ai) g
                 (map (\<lambda>d. class_of acts (action d))
                    (filter (\<lambda>d. class_of acts (action d) \<noteq> - 1) rows))))
               (filter (\<lambda>d. class_of acts (action d) \<noteq> - 1) rows)))"
proof -
  let ?cl = "\<lambda>d. class_of acts (action d)"
  let ?rows1 = "filter (\<lambda>d. ?cl d \<noteq> - 1) rows"
  have tc: "to_classes acts (map action rows) = Inr (map ?cl rows)"
    using rows shape by (simp add: to_classes_eq comp_def)
  have st: "compress (map (\<lambda>c. c \<noteq> - 1) (map ?cl rows)) (map state rows) = map state ?rows1"
    using compress_pred_map [where P = "\<lambda>d. ?cl d \<noteq> - 1" and f = state and xs = rows]
    by (simp add: comp_def)
  have cs: "compress (map (\<lambda>c. c \<noteq> - 1) (map ?cl rows)) (map ?cl rows) = map ?cl ?rows1"
    using compress_pred_map [where P = "\<lambda>d. ?cl d \<noteq> - 1" and f = ?cl and xs = rows]
    by (simp add: comp_def)
  have "fst (prepare acts g rows) = Inr (fst (downsample (int ai) g (map state ?rows1) (map ?cl ?rows1)))"
    using rows tc ai st cs by (simp add: prepare_def Let_def split: prod.splits)
  then show ?thesis
    by (simp add: downsample_fst compress_map)
qed

lemma prepare_Inr_D:
  assumes "fst (prepare acts g rows) = Inr r"
  shows "rows \<noteq> [] \<and> (\<exists>ai. index_of acts accelerate = Some ai)"
  using assms
  by (auto simp: prepare_def Let_def split: if_splits sum.splits option.splits prod.splits)

lemma prepare_selection:
  assumes res: "fst (prepare acts g rows) = Inr (states, labels)"
    and shape: "\<forall>d \<in> set rows. \<forall>a \<in> set acts. length (action d) = length a"
  shows "\<exists>sel. mset sel \<subseteq># mset rows \<and> states = map state sel
     \<and> labels = map (\<lambda>d. class_of acts (action d)) sel
     \<and> (\<forall>d \<in> set sel. class_of acts (action d) \<noteq> - 1)"
proof -
  from prepare_Inr_D [OF res] obtain ai where rows: "rows \<noteq> []"
    and ai: "index_of acts accelerate = Some ai"
    by blast
  let ?cl = "\<lambda>d. class_of acts (action d)"
  let ?rows1 = "filter (\<lambda>d. ?cl d \<noteq> - 1) rows"
  let ?sel = "compress (fst (non_accel_mask (int ai) g (map ?cl ?rows1))) ?rows1"
  have "mset ?sel \<subseteq># mset ?rows1"
    by (rule mset_compress)
  also have "mset ?rows1 \<subseteq># mset rows"
    by simp
  finally have sub: "mset ?sel \<subseteq># mset rows" .
  have "set_mset (mset ?sel) \<subseteq> set_mset (mset ?rows1)"
    using mset_compress by (rule set_mset_mono)
  then have ne: "\<forall>d \<in> set ?sel. ?cl d \<noteq> - 1"
    by auto
  from prepare_Inr [OF rows shape ai, of g] res
  have "states = map state ?sel" "labels = map ?cl ?sel"
    by simp_all
  with sub ne show ?thesis
    by blast
qed

lemma rows_equal_length: "rows_equal actions a = Inr sel \<Longrightarrow> length sel = length actions"
  by (auto simp: rows_equal_def split: list.splits if_splits)

lemma label_loop_length:
  "label_loop i pats actions cs = Inr out \<Longrightarrow> length cs = length actions \<Longrightarrow>
     length out = length actions"
proof (induction pats arbitrary: i cs)
  case Nil
  then show ?case by simp
next
  case (Cons a as)
  from Cons.prems(1) obtain sel where sel: "rows_equal actions a = Inr sel"
    and loop: "label_loop (Suc i) as actions (assign_where sel (int i) cs) = Inr out"
    by (auto split: sum.splits)
  have "length (assign_where sel (int i) cs) = length actions"
    using rows_equal_length [OF sel] Cons.prems(2) by (simp add: assign_where_def)
  with loop show ?case
    by (rule Cons.IH)
qed

lemma to_classes_length: "to_classes acts actions = Inr cs \<Longrightarrow> length cs = length actions"
  using label_loop_length [of 0 acts actions "replicate (length actions) (- 1)" cs]
  by (simp add: to_classes_def)

lemma prepare_parallel:
  assumes "fst (prepare acts g rows) = Inr (states, labels)"
  shows "length states = length labels"
proof -
  from assms obtain cs ai g' where tc: "to_classes acts (map action rows) = Inr cs"
    and ds: "downsample (int ai) g (compress (map (\<lambda>c. c \<noteq> - 1) cs) (map state rows))
        (compress (map (\<lambda>c. c \<noteq> - 1) cs) cs) = ((states, labels), g')"
    by (auto simp: prepare_def Let_def split: if_splits sum.splits option.splits prod.splits)
  from ds have res: "fst (downsample (int ai) g (compress (map (\<lambda>c. c \<noteq> - 1) cs) (map state rows))
        (compress (map (\<lambda>c. c \<noteq> - 1) cs) cs)) = (states, labels)"
    by simp
  have "length (map state rows) = length cs"
    using to_classes_length [OF tc] by simp
  then have "length (compress (map (\<lambda>c. c \<noteq> - 1) cs) (map state rows))
      = length (compress (map (\<lambda>c. c \<noteq> - 1) cs) cs)"
    by (rule length_compress_same)
  then show ?thesis
    using res unfolding downsample_fst by (auto intro: length_compress_same)
qed

subsection \<open>Reading the data in a world\<close>

lemma set_rare_loop: "set (rare_loop m d pats c) \<subseteq> insert d (set c)"
proof (induction pats arbitrary: c)
  case Nil
  then show ?case by auto
next
  case (Cons a as)
  have "set (c @ replicate (nat m) d) \<subseteq> insert d (set c)"
    by auto
  with Cons.IH [of "c @ replicate (nat m) d"] Cons.IH [of c] show ?case
    by (cases "action d = a") auto
qed

lemma set_inflate_loop: "set (inflate_loop m ds c) \<subseteq> set c \<union> set ds"
proof (induction ds arbitrary: c)
  case Nil
  then show ?case by simp
next
  case (Cons d ds)
  from Cons.IH [of "rare_loop m d rare_events c"] set_rare_loop [of m d rare_events c]
  show ?case by auto
qed

lemma set_inflate: "set (inflate m data) = set data"
proof
  show "set (inflate m data) \<subseteq> set data"
    using set_inflate_loop [of m data data] by (simp add: inflate_def)
  have "mset data \<subseteq># mset (inflate m data)"
    by (simp add: inflate_def mset_inflate_loop)
  then show "set data \<subseteq> set (inflate m data)"
    using set_mset_mono by fastforce
qed

lemma read_data_with_Pickled:
  "data_file w = Pickled data \<Longrightarrow>
     fst (read_data_with m acts w)
       = fst (prepare acts (np_random w) (fst (shuffle (py_random w) (inflate m data))))"
  by (simp add: read_data_with_def load_data_def Let_def split: prod.splits)

lemma read_data_with_snd:
  "calls (snd (read_data_with m acts w)) = calls w @ [ReadData]
   \<and> model_file (snd (read_data_with m acts w)) = model_file w
   \<and> data_file (snd (read_data_with m acts w)) = data_file w"
  by (simp add: read_data_with_def load_data_def Let_def split: pickle_file.splits prod.splits)

lemma read_data_selection:
  assumes pickled: "data_file w = Pickled data"
    and res: "fst (read_data_with m acts w) = Inr (states, labels)"
    and shape: "three_components acts" "three_components (map action data)"
  shows "\<exists>sel. mset sel \<subseteq># mset (inflate m data) \<and> states = map state sel
     \<and> labels = map (\<lambda>d. class_of acts (action d)) sel
     \<and> (\<forall>d \<in> set sel. class_of acts (action d) \<noteq> - 1)"
proof -
  let ?rows = "fst (shuffle (py_random w) (inflate m data))"
  have "set ?rows = set data"
    by (simp add: shuffle_set set_inflate)
  with shape have "\<forall>d \<in> set ?rows. \<forall>a \<in> set acts. length (action d) = length a"
    by (simp add: three_components_def list_all_iff)
  moreover have "fst (prepare acts (np_random w) ?rows) = Inr (states, labels)"
    using res read_data_with_Pickled [OF pickled] by simp
  ultimately obtain sel where "mset sel \<subseteq># mset ?rows" "states = map state sel"
    "labels = map (\<lambda>d. class_of acts (action d)) sel"
    "\<forall>d \<in> set sel. class_of acts (action d) \<noteq> - 1"
    using prepare_selection by blast
  then show ?thesis
    by (auto simp: shuffle_mset)
qed


text \<open>
  Claim C1, as stated, fails for an action vector that is no pattern and broadcasts
  against one. A file of one transition with the one-component vector \<open>[0]\<close>: lines 49
  and 50 compare by broadcasting, the transition is retained with the label \<open>0\<close>, and the
  pattern at \<open>0\<close> is \<open>[0, 0, 0]\<close>, not the vector \<open>[0]\<close> of the sample.
\<close>

theorem label_pattern_counterexample:
  "fst (read_data example_actions
      (example_world\<lparr>data_file := Pickled [\<lparr>state = 7, action = [0], unused = ()\<rparr>]\<rparr>))
     = Inr ([7], [0])
   \<and> state \<lparr>state = 7 :: nat, action = [0], unused = ()\<rparr> = 7
   \<and> example_actions ! nat 0 = [0, 0, 0]
   \<and> example_actions ! nat 0 \<noteq> action \<lparr>state = 7 :: nat, action = [0], unused = ()\<rparr>"
  by code_simp

text \<open>
  Claim C1, amended. When the action vectors of the file have three components, as the
  patterns have, every sample that \<^verbatim>\<open>read_data\<close> returns is one of the inflated
  transitions, and the pattern at the index that is its label is its own action vector:
  the retained samples are a sub-collection \<open>sel\<close> of the transitions, the returned states
  are their states, and looking the returned labels up in the table gives their action
  vectors back.
\<close>

theorem label_pattern_is_action:
  assumes "data_file w = Pickled data"
    and "fst (read_data acts w) = Inr (states, labels)"
    and "three_components acts" and "three_components (map action data)"
  shows "\<exists>sel. mset sel \<subseteq># mset (inflate MULTIPLY_RARE_EVENTS data)
     \<and> states = map state sel
     \<and> (\<forall>l \<in> set labels. 0 \<le> l \<and> l < int (length acts))
     \<and> map (\<lambda>l. acts ! nat l) labels = map action sel"
proof -
  from read_data_selection [OF assms(1) assms(2) [unfolded read_data_def] assms(3,4)]
  obtain sel where sel: "mset sel \<subseteq># mset (inflate MULTIPLY_RARE_EVENTS data)"
    "states = map state sel" "labels = map (\<lambda>d. class_of acts (action d)) sel"
    "\<forall>d \<in> set sel. class_of acts (action d) \<noteq> - 1"
    by blast
  have ok: "0 \<le> class_of acts (action d) \<and> class_of acts (action d) < int (length acts)
      \<and> acts ! nat (class_of acts (action d)) = action d" if "d \<in> set sel" for d
    using class_of_cases [of acts "action d"] sel(4) that by blast
  have "\<forall>l \<in> set labels. 0 \<le> l \<and> l < int (length acts)"
    using ok sel(3) by auto
  moreover have "map (\<lambda>l. acts ! nat l) labels = map action sel"
    using ok sel(3) by simp
  ultimately show ?thesis
    using sel(1,2) by blast
qed


theorem label_pattern_is_action_witness:
  "data_file example_world = Pickled example_data
   \<and> fst (read_data example_actions example_world) = Inr ([0, 1], [5, 1])
   \<and> three_components example_actions \<and> three_components (map action example_data)
   \<and> (\<exists>sel. mset sel \<subseteq># mset (inflate MULTIPLY_RARE_EVENTS example_data)
        \<and> [0, 1] = map state sel
        \<and> (\<forall>l \<in> set [5, 1]. 0 \<le> l \<and> l < int (length example_actions))
        \<and> map (\<lambda>l. example_actions ! nat l) [5, 1] = map action sel)"
proof -
  have h1: "data_file example_world = Pickled example_data"
    by (simp add: example_world_def)
  have h2: "fst (read_data example_actions example_world) = Inr ([0, 1], [5, 1])"
    by code_simp
  have h3: "three_components example_actions"
    by code_simp
  have h4: "three_components (map action example_data)"
    by code_simp
  show ?thesis
    by (intro conjI h1 h2 h3 h4 label_pattern_is_action [OF h1 h2 h3 h4])
qed

text \<open>
  Claim C2, as stated, fails the same way. Of two transitions with the one-component
  vectors \<open>[0]\<close> and \<open>[1]\<close>, neither of which is a pattern of the table, the first is in
  both returned arrays, with the label of \<open>[0, 0, 0]\<close>.
\<close>

theorem retained_labels_counterexample:
  "[0] \<notin> set example_actions
   \<and> fst (read_data example_actions
      (example_world\<lparr>data_file := Pickled
         [\<lparr>state = 0, action = [0], unused = ()\<rparr>,
          \<lparr>state = 1, action = [1], unused = ()\<rparr>]\<rparr>))
     = Inr ([0], [0])"
  by code_simp

text \<open>
  Claim C2, amended. When the action vectors of the file have three components, as the
  patterns have, the two arrays that \<^verbatim>\<open>read_data\<close> returns have the same length; no label
  is the sentinel \<open>- 1\<close>, every label is an index into the table of patterns; every
  retained sample is a transition whose action vector is one of the patterns, so that a
  transition of no pattern is in neither array; and when the patterns are pairwise
  different, the label is the only index whose pattern is the sample's action vector.
\<close>

theorem retained_labels_valid:
  assumes "data_file w = Pickled data"
    and "fst (read_data acts w) = Inr (states, labels)"
    and "three_components acts" and "three_components (map action data)"
  shows "length states = length labels
     \<and> (\<forall>l \<in> set labels. l \<noteq> - 1 \<and> 0 \<le> l \<and> l < int (length acts))
     \<and> (\<exists>sel. mset sel \<subseteq># mset (inflate MULTIPLY_RARE_EVENTS data)
           \<and> states = map state sel \<and> length labels = length sel
           \<and> (\<forall>d \<in> set sel. action d \<in> set acts)
           \<and> (distinct acts \<longrightarrow>
                (\<forall>(d, l) \<in> set (zip sel labels). \<forall>i < length acts.
                    (acts ! i = action d) = (int i = l))))"
proof -
  from read_data_selection [OF assms(1) assms(2) [unfolded read_data_def] assms(3,4)]
  obtain sel where sel: "mset sel \<subseteq># mset (inflate MULTIPLY_RARE_EVENTS data)"
    "states = map state sel" "labels = map (\<lambda>d. class_of acts (action d)) sel"
    "\<forall>d \<in> set sel. class_of acts (action d) \<noteq> - 1"
    by blast
  have ok: "0 \<le> class_of acts (action d) \<and> class_of acts (action d) < int (length acts)
      \<and> acts ! nat (class_of acts (action d)) = action d" if "d \<in> set sel" for d
    using class_of_cases [of acts "action d"] sel(4) that by blast
  have len: "length states = length labels"
    using sel(2,3) by simp
  have lab: "\<forall>l \<in> set labels. l \<noteq> - 1 \<and> 0 \<le> l \<and> l < int (length acts)"
    using ok sel(3,4) by auto
  have mem: "\<forall>d \<in> set sel. action d \<in> set acts"
  proof
    fix d assume "d \<in> set sel"
    from ok [OF this] have "nat (class_of acts (action d)) < length acts"
      "acts ! nat (class_of acts (action d)) = action d"
      by (simp_all add: nat_less_iff)
    then show "action d \<in> set acts"
      by (metis nth_mem)
  qed
  have one: "\<forall>(d, l) \<in> set (zip sel labels). \<forall>i < length acts.
      (acts ! i = action d) = (int i = l)" if dist: "distinct acts"
  proof (clarify)
    fix d l i assume dl: "(d, l) \<in> set (zip sel labels)" and i: "i < length acts"
    from dl have d: "d \<in> set sel" and l: "l = class_of acts (action d)"
      unfolding sel(3) by (auto simp: zip_map2 dest: set_zip_leftD) (auto simp: set_zip)
    from ok [OF d] have n: "nat l < length acts" "acts ! nat l = action d" "0 \<le> l"
      unfolding l by (simp_all add: nat_less_iff)
    have "(acts ! i = acts ! nat l) = (i = nat l)"
      using dist i n(1) by (rule nth_eq_iff_index_eq)
    then show "(acts ! i = action d) = (int i = l)"
      using n(2,3) by auto
  qed
  show ?thesis
    using len lab sel(1,2,3) mem one by auto
qed

theorem retained_labels_valid_witness:
  "data_file example_world = Pickled example_data
   \<and> fst (read_data example_actions example_world) = Inr ([0, 1], [5, 1])
   \<and> three_components example_actions \<and> three_components (map action example_data)
   \<and> distinct example_actions
   \<and> length [0 :: nat, 1] = length [5 :: int, 1]
   \<and> list_all (\<lambda>l. l \<noteq> - 1 \<and> 0 \<le> l \<and> l < int (length example_actions)) [5, 1]
   \<and> (\<exists>sel. mset sel \<subseteq># mset (inflate MULTIPLY_RARE_EVENTS example_data)
        \<and> [0, 1] = map state sel \<and> length [5 :: int, 1] = length sel
        \<and> (\<forall>d \<in> set sel. action d \<in> set example_actions)
        \<and> (distinct example_actions \<longrightarrow>
             (\<forall>(d, l) \<in> set (zip sel [5, 1]). \<forall>i < length example_actions.
               (example_actions ! i = action d) = (int i = l))))"
proof -
  have h1: "data_file example_world = Pickled example_data"
    by (simp add: example_world_def)
  have h2: "fst (read_data example_actions example_world) = Inr ([0, 1], [5, 1])"
    by code_simp
  have h3: "three_components example_actions"
    by code_simp
  have h4: "three_components (map action example_data)"
    by code_simp
  have h5: "distinct example_actions"
    by code_simp
  note t = retained_labels_valid [OF h1 h2 h3 h4]
  have c1: "length [0 :: nat, 1] = length [5 :: int, 1]"
    by (rule t [THEN conjunct1])
  have c2: "list_all (\<lambda>l. l \<noteq> - 1 \<and> 0 \<le> l \<and> l < int (length example_actions)) [5, 1]"
    unfolding list_all_iff by (rule t [THEN conjunct2, THEN conjunct1])
  show ?thesis
    by (rule conjI [OF h1 conjI [OF h2 conjI [OF h3 conjI [OF h4 conjI [OF h5
          conjI [OF c1 conjI [OF c2 t [THEN conjunct2, THEN conjunct2]]]]]]]])
qed

subsection \<open>A file of four transitions\<close>

lemma index_of_Some: "index_of ys x = Some k \<Longrightarrow> k < length ys \<and> ys ! k = x"
proof (induction ys arbitrary: k)
  case Nil
  then show ?case by simp
next
  case (Cons y ys)
  then show ?case
    by (cases "y = x") auto
qed

lemma class_of_index:
  assumes "distinct acts" "index_of acts a = Some k"
  shows "class_of acts a = int k"
proof -
  from index_of_Some [OF assms(2)] have k: "k < length acts" "acts ! k = a"
    by simp_all
  then have "a \<in> set acts"
    by (metis nth_mem)
  with class_of_cases [of acts a]
  have c: "0 \<le> class_of acts a" "nat (class_of acts a) < length acts"
    "acts ! nat (class_of acts a) = a"
    by (simp_all add: nat_less_iff)
  have "nat (class_of acts a) = k"
    using nth_eq_iff_index_eq [OF assms(1) c(2) k(1)] c(3) k(2) by simp
  with c(1) show ?thesis
    by simp
qed

lemma class_of_unknown: "a \<notin> set acts \<Longrightarrow> class_of acts a = - 1"
proof -
  assume a: "a \<notin> set acts"
  have "\<not> (0 \<le> class_of acts a \<and> class_of acts a < int (length acts)
      \<and> acts ! nat (class_of acts a) = a)"
  proof
    assume c: "0 \<le> class_of acts a \<and> class_of acts a < int (length acts)
      \<and> acts ! nat (class_of acts a) = a"
    then have "nat (class_of acts a) < length acts"
      by (simp add: nat_less_iff)
    with c a show False
      by (metis nth_mem)
  qed
  with class_of_cases [of acts a] show ?thesis
    by blast
qed

lemma mset_inflate:
  "1 < m \<Longrightarrow> mset (inflate m data)
     = mset data + repeat_mset (nat m) (filter_mset (\<lambda>d. action d \<in> set rare_events) (mset data))"
  by (simp add: inflate_def mset_inflate_loop)

lemma four_patterns:
  fixes w :: "('s, 'x, 'm) world"
  assumes pickled: "data_file w = Pickled [da, db, dl, du]"
    and da: "action da = [0, 1, 0]" and db: "action db = [0, 0, 1]"
    and dl: "action dl = [- 1, 0, 1]"
    and du: "action du \<notin> set acts" "length (action du) = 3"
    and acts: "three_components acts" "distinct acts"
    and ia: "index_of acts [0, 1, 0] = Some ia"
    and ib: "index_of acts [0, 0, 1] = Some ib"
    and il: "index_of acts [- 1, 0, 1] = Some il"
  shows "\<exists>states labels. fst (read_data acts w) = Inr (states, labels)
     \<and> length states = length labels
     \<and> mset (zip states labels) =
         replicate_mset 31 (state db, int ib) + replicate_mset 31 (state dl, int il)
         + (if draws (np_random w) (pos (np_random w)) > 7 / 10
            then {#(state da, int ia)#} else {#})"
proof -
  define cl :: "('s, 'x) transition \<Rightarrow> int" where "cl = (\<lambda>d. class_of acts (action d))"
  define rows where "rows = fst (shuffle (py_random w) (inflate MULTIPLY_RARE_EVENTS [da, db, dl, du]))"
  define rows1 where "rows1 = filter (\<lambda>d. cl d \<noteq> - 1) rows"
  define km where "km = fst (non_accel_mask (int ia) (np_random w) (map cl rows1))"
  define sel where "sel = compress km rows1"
  define r0 where "r0 = draws (np_random w) (pos (np_random w))"
  have cls: "cl da = int ia" "cl db = int ib" "cl dl = int il" "cl du = - 1"
    using class_of_index [OF acts(2) ia] class_of_index [OF acts(2) ib]
      class_of_index [OF acts(2) il] class_of_unknown [OF du(1)]
    by (simp_all add: cl_def da db dl)
  have neq: "ia \<noteq> ib" "ia \<noteq> il" "ib \<noteq> il"
    using index_of_Some [OF ia] index_of_Some [OF ib] index_of_Some [OF il] by auto
  have diff: "da \<noteq> db" "da \<noteq> dl" "da \<noteq> du" "db \<noteq> dl" "db \<noteq> du" "dl \<noteq> du"
    using cls neq by auto
  have rare: "action da \<notin> set rare_events" "action db \<in> set rare_events"
    "action dl \<in> set rare_events"
    by (simp_all add: da db dl rare_events_def)
  have m_rows: "mset rows = {#da#} + replicate_mset 31 db + replicate_mset 31 dl
      + replicate_mset (if action du \<in> set rare_events then 31 else 1) du"
  proof -
    have "mset rows = mset (inflate MULTIPLY_RARE_EVENTS [da, db, dl, du])"
      by (simp add: rows_def shuffle_mset)
    also have "\<dots> = mset [da, db, dl, du] + repeat_mset 30
        (filter_mset (\<lambda>d. action d \<in> set rare_events) (mset [da, db, dl, du]))"
      by (simp add: mset_inflate MULTIPLY_RARE_EVENTS_def)
    also have "\<dots> = {#da#} + replicate_mset 31 db + replicate_mset 31 dl
      + replicate_mset (if action du \<in> set rare_events then 31 else 1) du"
      using rare by (simp add: multiset_eq_iff)
    finally show ?thesis .
  qed
  have m_rows1: "mset rows1 = {#da#} + replicate_mset 31 db + replicate_mset 31 dl"
    unfolding rows1_def mset_filter m_rows
    using cls diff by (auto simp: multiset_eq_iff)
  have m_other: "mset (filter (\<lambda>d. cl d \<noteq> int ia) rows1)
      = replicate_mset 31 db + replicate_mset 31 dl"
    unfolding mset_filter m_rows1
    using cls neq diff by (auto simp: multiset_eq_iff)
  have "mset (filter (\<lambda>d. cl d = int ia) rows1) = {#da#}"
    unfolding mset_filter m_rows1
    using cls neq diff by (auto simp: multiset_eq_iff)
  then have accel: "filter (\<lambda>d. cl d = int ia) rows1 = [da]"
    by (rule mset_single_iff [THEN iffD1])
  have kept_other: "filter (\<lambda>d. cl d \<noteq> int ia) sel = filter (\<lambda>d. cl d \<noteq> int ia) rows1"
    unfolding sel_def km_def by (rule non_accel_mask_props(2))
  have "filter (\<lambda>d. cl d = int ia) sel
      = map fst (filter (\<lambda>(p, r). r > 7 / 10)
           (zip (filter (\<lambda>d. cl d = int ia) rows1)
                (fst (rand (length (filter (\<lambda>d. cl d = int ia) rows1)) (np_random w)))))"
    unfolding sel_def km_def by (rule non_accel_mask_props(3))
  then have kept_accel: "filter (\<lambda>d. cl d = int ia) sel = (if r0 > 7 / 10 then [da] else [])"
    unfolding accel by (simp add: rand_fst r0_def)
  have "mset sel = mset (filter (\<lambda>d. cl d \<noteq> int ia) sel) + mset (filter (\<lambda>d. cl d = int ia) sel)"
    by (simp add: multiset_eq_iff)
  then have m_sel: "mset sel = replicate_mset 31 db + replicate_mset 31 dl
      + (if r0 > 7 / 10 then {#da#} else {#})"
    unfolding kept_other kept_accel m_other by simp
  have rows_ne: "rows \<noteq> []"
    using m_rows by auto
  have "set rows = {da, db, dl, du}"
    by (simp add: rows_def shuffle_set set_inflate)
  then have shape: "\<forall>d \<in> set rows. \<forall>a \<in> set acts. length (action d) = length a"
    using acts(1) du(2) by (auto simp: three_components_def list_all_iff da db dl)
  have ai: "index_of acts accelerate = Some ia"
    using ia by (simp add: accelerate_def)
  have res: "fst (read_data acts w) = Inr (map state sel, map cl sel)"
    unfolding read_data_def read_data_with_Pickled [OF pickled] sel_def km_def rows1_def cl_def
      rows_def
    by (rule prepare_Inr [OF rows_ne [unfolded rows_def] shape [unfolded rows_def] ai])
  have "mset (zip (map state sel) (map cl sel)) = image_mset (\<lambda>d. (state d, cl d)) (mset sel)"
    by (simp add: zip_map_map zip_same_conv_map comp_def)
  also have "\<dots> = replicate_mset 31 (state db, int ib) + replicate_mset 31 (state dl, int il)
         + (if r0 > 7 / 10 then {#(state da, int ia)#} else {#})"
    unfolding m_sel using cls by simp
  finally show ?thesis
    using res unfolding r0_def by auto
qed

lemma four_world_facts:
  "data_file four_world =
     Pickled [\<lparr>state = 0, action = [0, 1, 0], unused = ()\<rparr>,
              \<lparr>state = 1, action = [0, 0, 1], unused = ()\<rparr>,
              \<lparr>state = 2, action = [- 1, 0, 1], unused = ()\<rparr>,
              \<lparr>state = 3, action = [0, 0, 0], unused = ()\<rparr>]"
  "[0, 0, 0] \<notin> set four_actions"
  "three_components four_actions"
  "distinct four_actions"
  "index_of four_actions [0, 1, 0] = Some 0"
  "index_of four_actions [0, 0, 1] = Some 1"
  "index_of four_actions [- 1, 0, 1] = Some 2"
  "draws (np_random four_world) (pos (np_random four_world)) > 7 / 10"
  by (simp_all add: four_world_def four_data_def four_actions_def three_components_def)

text \<open>
  Claim C5, as stated, fails. On the four transitions, with a table whose first three
  patterns are accelerate, brake and left+brake and draws that keep every accelerate
  sample, \<^verbatim>\<open>read_data\<close> returns 63 samples, not 3: the brake and the left+brake
  transition are rare events, and each is there 31 times.
\<close>

theorem four_transitions_counterexample:
  "map_sum id (length \<circ> fst) (fst (read_data four_actions four_world)) = Inr 63
   \<and> map_sum id (mset \<circ> snd) (fst (read_data four_actions four_world))
       = Inr (replicate_mset 31 1 + replicate_mset 31 2 + {#0#})"
proof -
  from four_patterns [OF four_world_facts(1) _ _ _ _ _ four_world_facts(3-7)]
    four_world_facts(2,8)
  obtain states labels where res: "fst (read_data four_actions four_world) = Inr (states, labels)"
    and len: "length states = length labels"
    and m: "mset (zip states labels)
       = replicate_mset 31 (1, 1) + replicate_mset 31 (2, 2) + {#(0 :: nat, 0 :: int)#}"
    by auto
  have "size (mset (zip states labels)) = 63"
    unfolding m by simp
  then have n: "length states = 63"
    using len by simp
  have "mset labels = image_mset snd (mset (zip states labels))"
    using len by (metis map_snd_zip mset_map)
  then have "mset labels = replicate_mset 31 1 + replicate_mset 31 2 + {#0#}"
    unfolding m by simp
  with res n show ?thesis
    by simp
qed

text \<open>
  Claim C5, amended. Fed four transitions, one each of accelerate, brake, left+brake and a
  vector that is no pattern of the table, \<^verbatim>\<open>read_data\<close> with the configured multiplier
  returns two parallel arrays that hold the brake sample 31 times and the left+brake
  sample 31 times, the accelerate sample once when the first number of \<^verbatim>\<open>np.random\<close> is
  above \<open>0.7\<close> and not at all otherwise, and never the fourth one; the label of each is the
  index of its pattern in the table. (The patterns of the table have three components and
  are pairwise different.)
\<close>

theorem four_transitions_prepared:
  fixes w :: "('s, 'x, 'm) world"
  assumes "data_file w = Pickled [da, db, dl, du]"
    and "action da = [0, 1, 0]" and "action db = [0, 0, 1]" and "action dl = [- 1, 0, 1]"
    and "action du \<notin> set acts" and "length (action du) = 3"
    and "three_components acts" and "distinct acts"
    and "index_of acts [0, 1, 0] = Some ia"
    and "index_of acts [0, 0, 1] = Some ib"
    and "index_of acts [- 1, 0, 1] = Some il"
  shows "\<exists>states labels. fst (read_data acts w) = Inr (states, labels)
     \<and> length states = length labels
     \<and> mset (zip states labels) =
         replicate_mset 31 (state db, int ib) + replicate_mset 31 (state dl, int il)
         + (if draws (np_random w) (pos (np_random w)) > 7 / 10
            then {#(state da, int ia)#} else {#})"
  using assms by (rule four_patterns)

theorem four_transitions_prepared_witness:
  "data_file four_world =
     Pickled [\<lparr>state = 0, action = [0, 1, 0], unused = ()\<rparr>,
              \<lparr>state = 1, action = [0, 0, 1], unused = ()\<rparr>,
              \<lparr>state = 2, action = [- 1, 0, 1], unused = ()\<rparr>,
              \<lparr>state = 3, action = [0, 0, 0], unused = ()\<rparr>]
   \<and> action \<lparr>state = 0 :: nat, action = [0, 1, 0], unused = ()\<rparr> = [0, 1, 0]
   \<and> action \<lparr>state = 1 :: nat, action = [0, 0, 1], unused = ()\<rparr> = [0, 0, 1]
   \<and> action \<lparr>state = 2 :: nat, action = [- 1, 0, 1], unused = ()\<rparr> = [- 1, 0, 1]
   \<and> action \<lparr>state = 3 :: nat, action = [0, 0, 0], unused = ()\<rparr> \<notin> set four_actions
   \<and> length (action \<lparr>state = 3 :: nat, action = [0, 0, 0], unused = ()\<rparr>) = 3
   \<and> three_components four_actions \<and> distinct four_actions
   \<and> index_of four_actions [0, 1, 0] = Some 0
   \<and> index_of four_actions [0, 0, 1] = Some 1
   \<and> index_of four_actions [- 1, 0, 1] = Some 2
   \<and> (\<exists>states labels. fst (read_data four_actions four_world) = Inr (states, labels)
        \<and> length states = length labels
        \<and> mset (zip states labels) =
            replicate_mset 31 (state \<lparr>state = 1 :: nat, action = [0, 0, 1], unused = ()\<rparr>, int 1)
            + replicate_mset 31
                (state \<lparr>state = 2 :: nat, action = [- 1, 0, 1], unused = ()\<rparr>, int 2)
            + (if draws (np_random four_world) (pos (np_random four_world)) > 7 / 10
               then {#(state \<lparr>state = 0 :: nat, action = [0, 1, 0], unused = ()\<rparr>, int 0)#}
               else {#}))"
proof -
  have a: "action \<lparr>state = 0 :: nat, action = [0, 1, 0], unused = ()\<rparr> = [0, 1, 0]"
    "action \<lparr>state = 1 :: nat, action = [0, 0, 1], unused = ()\<rparr> = [0, 0, 1]"
    "action \<lparr>state = 2 :: nat, action = [- 1, 0, 1], unused = ()\<rparr> = [- 1, 0, 1]"
    by simp_all
  have u: "action \<lparr>state = 3 :: nat, action = [0, 0, 0], unused = ()\<rparr> \<notin> set four_actions"
    "length (action \<lparr>state = 3 :: nat, action = [0, 0, 0], unused = ()\<rparr>) = 3"
    by (simp_all add: four_actions_def)
  note f = four_world_facts
  show ?thesis
    by (intro conjI f(1) a u f(3) f(4) f(5) f(6) f(7)
        four_transitions_prepared [OF f(1) a u f(3) f(4) f(5) f(6) f(7)])
qed

subsection \<open>The split into training and validation data\<close>

lemma read_data_parallel:
  assumes "fst (read_data acts w) = Inr (x, y)"
  shows "length x = length y"
proof (cases "data_file w")
  case Missing
  with assms show ?thesis
    by (simp add: read_data_def read_data_with_def load_data_def)
next
  case Corrupt
  with assms show ?thesis
    by (simp add: read_data_def read_data_with_def load_data_def)
next
  case (Pickled data)
  from assms show ?thesis
    unfolding read_data_def read_data_with_Pickled [OF Pickled] by (rule prepare_parallel)
qed

lemma split_point_le: "nat \<lfloor>real n * TRAIN_VAL_SPLIT\<rfloor> \<le> n"
proof -
  have "real n * TRAIN_VAL_SPLIT \<le> real n"
    by (simp add: TRAIN_VAL_SPLIT_def)
  then have "\<lfloor>real n * TRAIN_VAL_SPLIT\<rfloor> \<le> int n"
    by (simp add: floor_le_iff)
  then show ?thesis
    by simp
qed

lemma split_point_div: "nat \<lfloor>real n * TRAIN_VAL_SPLIT\<rfloor> = 17 * n div 20"
proof -
  have "real n * TRAIN_VAL_SPLIT = real_of_int (17 * int n) / real_of_int 20"
    by (simp add: TRAIN_VAL_SPLIT_def)
  then have "\<lfloor>real n * TRAIN_VAL_SPLIT\<rfloor> = (17 * int n) div 20"
    by (simp only: floor_divide_of_int_eq)
  then show ?thesis
    by (simp add: nat_div_distrib nat_mult_distrib)
qed

lemma split_point_zero: "(nat \<lfloor>real n * TRAIN_VAL_SPLIT\<rfloor> = 0) = (n < 2)"
  unfolding split_point_div by (simp add: div_eq_0_iff) arith

lemma create_datasets_eq:
  assumes "fst (read_data acts w) = Inr (x, y)" and "2 \<le> length x"
  shows "create_datasets acts chan_first w =
     (Inr (\<lparr>tensor_x = take (nat \<lfloor>real (length x) * TRAIN_VAL_SPLIT\<rfloor>) (map chan_first x),
            tensor_y = take (nat \<lfloor>real (length x) * TRAIN_VAL_SPLIT\<rfloor>) y,
            shuffled = True\<rparr>,
           \<lparr>tensor_x = drop (nat \<lfloor>real (length x) * TRAIN_VAL_SPLIT\<rfloor>) (map chan_first x),
            tensor_y = drop (nat \<lfloor>real (length x) * TRAIN_VAL_SPLIT\<rfloor>) y,
            shuffled = False\<rparr>),
      snd (read_data acts w))"
proof -
  obtain w' where rd: "read_data acts w = (Inr (x, y), w')"
    using assms(1) by (cases "read_data acts w") simp
  have len: "length x = length y"
    using assms(1) by (rule read_data_parallel)
  have k: "nat \<lfloor>real (length y) * TRAIN_VAL_SPLIT\<rfloor> \<le> length y"
    by (rule split_point_le)
  have pos: "nat \<lfloor>real (length y) * TRAIN_VAL_SPLIT\<rfloor> \<noteq> 0"
    using assms(2) len split_point_zero [of "length y"] by simp
  have ne: "y \<noteq> []" "x \<noteq> []"
    using assms(2) len by auto
  show ?thesis
    using k pos ne
    by (simp add: create_datasets_def rd tensor_dataset_def data_loader_def len Let_def min_def)
qed




subsection \<open>The epochs\<close>

lemma epoch_loop_ok:
  assumes fit: "\<forall>m. fit train_loader m = Inr (f m)"
    and ev: "\<forall>m. evaluate val_order m = Inr (r m)"
  shows "epoch_loop fit evaluate train_loader val_order es model w =
     (Inr ((f ^^ length es) model),
      w\<lparr>calls := calls w @ concat (map (\<lambda>e. [TrainEpoch e, Test e, Save e]) es),
        model_file := (if es = [] then model_file w else Some ((f ^^ length es) model))\<rparr>)"
proof (induction es arbitrary: model w)
  case Nil
  then show ?case by simp
next
  case (Cons e es)
  show ?case
    by (simp add: fit ev Cons.IH Let_def funpow_swap1)
qed

lemma train_ok:
  assumes "fst (create_datasets acts chan_first w) = Inr (train_loader, val_order)"
    and "\<forall>m. fit train_loader m = Inr (f m)"
    and "\<forall>m. evaluate val_order m = Inr (r m)"
  shows "EPOCHS = 30
     \<and> train fit evaluate acts chan_first model w =
       (Inr ((f ^^ EPOCHS) model),
        (snd (create_datasets acts chan_first w))
          \<lparr>calls := calls (snd (create_datasets acts chan_first w))
              @ concat (map (\<lambda>epoch. [TrainEpoch epoch, Test epoch, Save epoch]) [0..<EPOCHS]),
           model_file := Some ((f ^^ EPOCHS) model)\<rparr>)"
proof -
  obtain w1 where cd: "create_datasets acts chan_first w = (Inr (train_loader, val_order), w1)"
    using assms(1) by (cases "create_datasets acts chan_first w") simp
  have "[0..<EPOCHS] \<noteq> []"
    by (simp add: EPOCHS_def)
  then show ?thesis
    using epoch_loop_ok [where fit = fit and train_loader = train_loader and f = f
        and evaluate = evaluate and val_order = val_order and r = r
        and es = "[0..<EPOCHS]" and model = model and w = w1, OF assms(2,3)]
    by (simp add: train_def cd) (simp add: EPOCHS_def)
qed

text \<open>
  Claim C7. When the datasets are there and no pass of the framework raises, \<^verbatim>\<open>train\<close>
  runs \<open>EPOCHS = 30\<close> epochs, and each of them is a training pass, then an evaluation
  pass over the validation set, then a write of the model to the checkpoint file, in this
  order. The write is there in every epoch whatever the evaluation returns (\<open>r\<close> is
  arbitrary), and the file holds in the end the model after the thirty training passes.
\<close>

theorem train_epochs_order:
  assumes "fst (create_datasets acts chan_first w) = Inr (train_loader, val_order)"
    and "\<forall>m. fit train_loader m = Inr (f m)"
    and "\<forall>m. evaluate val_order m = Inr (r m)"
  shows "EPOCHS = 30
     \<and> train fit evaluate acts chan_first model w =
       (Inr ((f ^^ EPOCHS) model),
        (snd (create_datasets acts chan_first w))
          \<lparr>calls := calls (snd (create_datasets acts chan_first w))
              @ concat (map (\<lambda>epoch. [TrainEpoch epoch, Test epoch, Save epoch]) [0..<EPOCHS]),
           model_file := Some ((f ^^ EPOCHS) model)\<rparr>)"
  using assms by (rule train_ok)

theorem train_epochs_order_witness:
  "fst (create_datasets example_actions Suc example_world)
     = Inr (\<lparr>tensor_x = [1], tensor_y = [5], shuffled = True\<rparr>,
            \<lparr>tensor_x = [2], tensor_y = [1], shuffled = False\<rparr>)
   \<and> (\<forall>m. (\<lambda>l m. Inr (Suc m) :: error + nat)
          \<lparr>tensor_x = [1 :: nat], tensor_y = [5], shuffled = True\<rparr> m = Inr (Suc m))
   \<and> (\<forall>m :: nat. (\<lambda>l m. Inr (m + length (tensor_y l)) :: error + nat)
          \<lparr>tensor_x = [2 :: nat], tensor_y = [1], shuffled = False\<rparr> m = Inr (Suc m))
   \<and> fst (train (\<lambda>l m. Inr (Suc m)) (\<lambda>l m. Inr (m + length (tensor_y l)) :: error + nat)
          example_actions Suc 0 example_world) = Inr 30
   \<and> (EPOCHS = 30
     \<and> train (\<lambda>l m. Inr (Suc m)) (\<lambda>l m. Inr (m + length (tensor_y l)) :: error + nat)
          example_actions Suc 0 example_world =
       (Inr ((Suc ^^ EPOCHS) 0),
        (snd (create_datasets example_actions Suc example_world))
          \<lparr>calls := calls (snd (create_datasets example_actions Suc example_world))
              @ concat (map (\<lambda>epoch. [TrainEpoch epoch, Test epoch, Save epoch]) [0..<EPOCHS]),
           model_file := Some ((Suc ^^ EPOCHS) 0)\<rparr>))"
proof -
  have h: "fst (read_data example_actions example_world) = Inr ([0, 1], [5, 1])"
    by code_simp
  have n: "2 \<le> length [0 :: nat, 1]"
    by simp
  have h1: "fst (create_datasets example_actions Suc example_world)
     = Inr (\<lparr>tensor_x = [1], tensor_y = [5], shuffled = True\<rparr>,
            \<lparr>tensor_x = [2], tensor_y = [1], shuffled = False\<rparr>)"
  proof -
    have k: "nat \<lfloor>real (length [0 :: nat, 1]) * TRAIN_VAL_SPLIT\<rfloor> = 1"
      unfolding split_point_div by simp
    show ?thesis
      unfolding create_datasets_eq [OF h n] k by simp
  qed
  have h2: "\<forall>m. (\<lambda>l m. Inr (Suc m) :: error + nat)
          \<lparr>tensor_x = [1 :: nat], tensor_y = [5], shuffled = True\<rparr> m = Inr (Suc m)"
    by simp
  have h3: "\<forall>m :: nat. (\<lambda>l m. Inr (m + length (tensor_y l)) :: error + nat)
          \<lparr>tensor_x = [2 :: nat], tensor_y = [1], shuffled = False\<rparr> m = Inr (Suc m)"
    by simp
  note t = train_epochs_order [where fit = "\<lambda>l m. Inr (Suc m)"
      and evaluate = "\<lambda>l m. Inr (m + length (tensor_y l))" and f = Suc and r = Suc
      and model = 0, OF h1 h2 h3]
  have v: "fst (train (\<lambda>l m. Inr (Suc m)) (\<lambda>l m. Inr (m + length (tensor_y l)) :: error + nat)
          example_actions Suc 0 example_world) = Inr 30"
    using t by (simp add: EPOCHS_def)
  show ?thesis
    by (rule conjI [OF h1 conjI [OF h2 conjI [OF h3 conjI [OF v t]]]])
qed

subsection \<open>Failures\<close>









subsection \<open>A whole run\<close>

lemma epoch_loop_no_read:
  "count_list (calls (snd (epoch_loop fit evaluate train_loader val_order es model w))) ReadData
     = count_list (calls w) ReadData"
proof (induction es arbitrary: model w)
  case Nil
  then show ?case by simp
next
  case (Cons e es)
  show ?case
    by (simp add: Cons.IH Let_def split: sum.splits)
qed

lemma train_reads_once:
  "count_list (calls (snd (train fit evaluate acts chan_first model w))) ReadData
     = count_list (calls w) ReadData + 1"
proof -
  have rd: "count_list (calls (snd (read_data acts w))) ReadData = count_list (calls w) ReadData + 1"
    using read_data_with_snd [of MULTIPLY_RARE_EVENTS acts w] by (simp add: read_data_def)
  have cd: "count_list (calls (snd (create_datasets acts chan_first w))) ReadData
      = count_list (calls w) ReadData + 1"
    using rd
    by (auto simp: create_datasets_def Let_def tensor_dataset_def
        split: prod.splits sum.splits if_splits)
  show ?thesis
    using cd by (auto simp: train_def epoch_loop_no_read split: prod.splits sum.splits)
qed

lemma run_reads_twice:
  assumes "fst (read_data acts w) = Inr r"
  shows "count_list (calls (snd (run fit evaluate acts chan_first model w))) ReadData
     = count_list (calls w) ReadData + 2"
proof -
  obtain w1 where rd: "read_data acts w = (Inr r, w1)"
    using assms by (cases "read_data acts w") simp
  have "count_list (calls w1) ReadData = count_list (calls w) ReadData + 1"
    using read_data_with_snd [of MULTIPLY_RARE_EVENTS acts w] rd by (simp add: read_data_def)
  then show ?thesis
    by (simp add: run_def load_module_def rd train_reads_once)
qed

lemma run_ok:
  assumes r1: "fst (read_data acts w) = Inr r"
    and r2: "fst (read_data acts (snd (read_data acts w))) = Inr (x, y)"
    and n: "2 \<le> length x"
    and fit: "\<forall>l m. fit l m = Inr (f m)"
    and ev: "\<forall>l m. evaluate l m = Inr (q m)"
  shows "fst (run fit evaluate acts chan_first model w) = Inr ((f ^^ EPOCHS) model)"
proof -
  obtain w1 where rd: "read_data acts w = (Inr r, w1)"
    using r1 by (cases "read_data acts w") simp
  from r2 rd have r2': "fst (read_data acts w1) = Inr (x, y)"
    by simp
  obtain train_loader val_order
    where cd: "fst (create_datasets acts chan_first w1) = Inr (train_loader, val_order)"
    using create_datasets_eq [OF r2' n, of chan_first] by simp
  have "\<forall>m. fit train_loader m = Inr (f m)" "\<forall>m. evaluate val_order m = Inr (q m)"
    using fit ev by simp_all
  from train_ok [where fit = fit and evaluate = evaluate and f = f and r = q and model = model,
      OF cd this]
  show ?thesis
    by (simp add: run_def load_module_def rd)
qed

text \<open>
  Claim C8 fails on the code. In a run of the training loop on the world of the four
  transitions (a well-formed file, passes that never raise), \<^verbatim>\<open>read_data\<close> is called
  twice: once when the module is loaded (line 73), its result dropped, and once from
  \<^verbatim>\<open>create_datasets\<close> (line 92). The run itself ends well, after thirty epochs.
\<close>

theorem run_reads_data_twice:
  "count_list
     (calls (snd (run (\<lambda>l m. Inr (Suc m)) (\<lambda>l m. Inr m :: error + nat)
        four_actions Suc 0 four_world))) ReadData = 2
   \<and> fst (run (\<lambda>l m. Inr (Suc m)) (\<lambda>l m. Inr m :: error + nat)
        four_actions Suc 0 four_world) = Inr 30"
proof -
  let ?w1 = "snd (read_data four_actions four_world)"
  from four_patterns [OF four_world_facts(1) _ _ _ _ _ four_world_facts(3-7)]
    four_world_facts(2)
  obtain s1 l1 where r1: "fst (read_data four_actions four_world) = Inr (s1, l1)"
    by auto
  have p1: "data_file ?w1 =
     Pickled [\<lparr>state = 0, action = [0, 1, 0], unused = ()\<rparr>,
              \<lparr>state = 1, action = [0, 0, 1], unused = ()\<rparr>,
              \<lparr>state = 2, action = [- 1, 0, 1], unused = ()\<rparr>,
              \<lparr>state = 3, action = [0, 0, 0], unused = ()\<rparr>]"
    using read_data_with_snd [of MULTIPLY_RARE_EVENTS four_actions four_world]
      four_world_facts(1)
    by (simp add: read_data_def)
  from four_patterns [OF p1 _ _ _ _ _ four_world_facts(3-7)] four_world_facts(2)
  obtain s2 l2 where r2: "fst (read_data four_actions ?w1) = Inr (s2, l2)"
    and len: "length s2 = length l2"
    and ms: "mset (zip s2 l2)
       = replicate_mset 31 (1, 1) + replicate_mset 31 (2, 2)
         + (if draws (np_random ?w1) (pos (np_random ?w1)) > 7 / 10
            then {#(0 :: nat, 0 :: int)#} else {#})"
    by auto
  have "62 \<le> size (mset (zip s2 l2))"
    unfolding ms by simp
  then have n: "2 \<le> length s2"
    using len by simp
  have "calls four_world = []"
    by (simp add: four_world_def)
  with run_reads_twice [OF r1, where fit = "\<lambda>l m. Inr (Suc m)"
      and evaluate = "\<lambda>l m. Inr m :: error + nat" and chan_first = Suc and model = 0]
  have twice: "count_list
     (calls (snd (run (\<lambda>l m. Inr (Suc m)) (\<lambda>l m. Inr m :: error + nat)
        four_actions Suc 0 four_world))) ReadData = 2"
    by simp
  have "fst (run (\<lambda>l m. Inr (Suc m)) (\<lambda>l m. Inr m :: error + nat)
        four_actions Suc 0 four_world) = Inr ((Suc ^^ EPOCHS) 0)"
    by (rule run_ok [OF r1 r2 n, where f = Suc and q = "\<lambda>m. m"]) simp_all
  then have "fst (run (\<lambda>l m. Inr (Suc m)) (\<lambda>l m. Inr m :: error + nat)
        four_actions Suc 0 four_world) = Inr 30"
    by (simp add: EPOCHS_def)
  with twice show ?thesis
    by (rule conjI)
qed

subsection \<open>Down-sampling\<close>

lemma downsample_pairs:
  assumes "length states = length act_classes"
  shows "case fst (downsample ai g states act_classes) of (states', act_classes') \<Rightarrow>
      length states' = length act_classes'
    \<and> filter (\<lambda>(s, c). c \<noteq> ai) (zip states' act_classes')
        = filter (\<lambda>(s, c). c \<noteq> ai) (zip states act_classes)
    \<and> filter (\<lambda>(s, c). c = ai) (zip states' act_classes')
        = map fst (filter (\<lambda>(p, r). r > 7 / 10)
            (zip (filter (\<lambda>(s, c). c = ai) (zip states act_classes))
                 (fst (rand (length (filter (\<lambda>c. c = ai) act_classes)) g))))"
proof -
  let ?ps = "zip states act_classes"
  let ?km = "fst (non_accel_mask ai g act_classes)"
  have cs: "map snd ?ps = act_classes"
    using assms by simp
  have n: "length (filter (\<lambda>p. snd p = ai) ?ps) = length (filter (\<lambda>c. c = ai) act_classes)"
  proof -
    have "filter (\<lambda>c. c = ai) (map snd ?ps) = map snd (filter (\<lambda>p. snd p = ai) ?ps)"
      by (simp add: filter_map comp_def)
    then show ?thesis
      unfolding cs by (metis length_map)
  qed
  have sel: "compress ?km ?ps = zip (compress ?km states) (compress ?km act_classes)"
    by (rule compress_zip)
  from non_accel_mask_props [where cl = snd and ps = ?ps and ai = ai and g = g]
  have "filter (\<lambda>p. snd p \<noteq> ai) (compress ?km ?ps) = filter (\<lambda>p. snd p \<noteq> ai) ?ps"
    and "filter (\<lambda>p. snd p = ai) (compress ?km ?ps)
       = map fst (filter (\<lambda>(p, r). r > 7 / 10)
           (zip (filter (\<lambda>p. snd p = ai) ?ps)
                (fst (rand (length (filter (\<lambda>c. c = ai) act_classes)) g))))"
    unfolding cs n by blast+
  moreover have "length (compress ?km states) = length (compress ?km act_classes)"
    using assms by (rule length_compress_same)
  ultimately show ?thesis
    unfolding downsample_fst sel by (simp add: case_prod_unfold)
qed

lemma map_pred_snd_zip:
  "length xs = length ys \<Longrightarrow> map (\<lambda>p. P (snd p)) (zip xs ys) = map P ys"
  by (induction xs ys rule: list_induct2) simp_all

lemma filter_eq_after_neq:
  "a \<noteq> b \<Longrightarrow> filter (\<lambda>p. f p = a) (filter (\<lambda>p. f p \<noteq> b) ps) = filter (\<lambda>p. f p = a) ps"
  by (induction ps) auto

lemma filter_neq_after_neq:
  "filter (\<lambda>p. f p \<noteq> a) (filter (\<lambda>p. f p \<noteq> b) ps)
     = filter (\<lambda>p. f p \<noteq> b \<and> f p \<noteq> a) ps"
  by (induction ps) auto

lemma valid_pairs:
  assumes "length xs = length cs"
  shows "zip (compress (map (\<lambda>c. c \<noteq> b) cs) xs) (compress (map (\<lambda>c. c \<noteq> b) cs) cs)
     = filter (\<lambda>p. snd p \<noteq> b) (zip xs cs)"
proof -
  have "compress (map (\<lambda>p. snd p \<noteq> b) (zip xs cs)) (zip xs cs)
      = filter (\<lambda>p. snd p \<noteq> b) (zip xs cs)"
    by (rule compress_pred)
  then have "compress (map (\<lambda>c. c \<noteq> b) cs) (zip xs cs) = filter (\<lambda>p. snd p \<noteq> b) (zip xs cs)"
    unfolding map_pred_snd_zip [OF assms, of "\<lambda>c. c \<noteq> b"] .
  then show ?thesis
    unfolding compress_zip .
qed

lemma valid_count:
  "a \<noteq> b \<Longrightarrow> filter (\<lambda>c. c = a) (compress (map (\<lambda>c. c \<noteq> b) cs) cs) = filter (\<lambda>c. c = a) cs"
  unfolding compress_pred using filter_eq_after_neq [of a b "\<lambda>c. c" cs] by simp

lemma downsample_pairs_snd:
  assumes "length states = length act_classes"
    and "fst (downsample ai g states act_classes) = (states', act_classes')"
  shows "length states' = length act_classes'"
    and "filter (\<lambda>p. snd p \<noteq> ai) (zip states' act_classes')
        = filter (\<lambda>p. snd p \<noteq> ai) (zip states act_classes)"
    and "filter (\<lambda>p. snd p = ai) (zip states' act_classes')
        = map fst (filter (\<lambda>(p, r). r > 7 / 10)
            (zip (filter (\<lambda>p. snd p = ai) (zip states act_classes))
                 (fst (rand (length (filter (\<lambda>c. c = ai) act_classes)) g))))"
  using downsample_pairs [OF assms(1), of ai g] assms(2)
  by (simp_all add: case_prod_unfold)

lemma prepare_thinned:
  assumes res: "fst (prepare acts g rows) = Inr (states, labels)"
  shows "\<exists>ai act_classes.
       index_of acts accelerate = Some ai
     \<and> to_classes acts (map action rows) = Inr act_classes
     \<and> length states = length labels
     \<and> filter (\<lambda>(s, c). c \<noteq> int ai) (zip states labels)
        = filter (\<lambda>(s, c). c \<noteq> - 1 \<and> c \<noteq> int ai) (zip (map state rows) act_classes)
     \<and> filter (\<lambda>(s, c). c = int ai) (zip states labels)
        = map fst (filter (\<lambda>(p, r). r > 7 / 10)
            (zip (filter (\<lambda>(s, c). c = int ai) (zip (map state rows) act_classes))
                 (fst (rand (length (filter (\<lambda>c. c = int ai) act_classes)) g))))"
proof -
  from res obtain cs ai g' where tc: "to_classes acts (map action rows) = Inr cs"
    and ai: "index_of acts accelerate = Some ai"
    and ds: "downsample (int ai) g (compress (map (\<lambda>c. c \<noteq> - 1) cs) (map state rows))
        (compress (map (\<lambda>c. c \<noteq> - 1) cs) cs) = ((states, labels), g')"
    by (auto simp: prepare_def Let_def split: if_splits sum.splits option.splits prod.splits)
  let ?valid = "map (\<lambda>c. c \<noteq> - 1) cs"
  let ?ps = "zip (map state rows) cs"
  have ds': "fst (downsample (int ai) g (compress ?valid (map state rows)) (compress ?valid cs))
      = (states, labels)"
    using ds by simp
  have len: "length (map state rows) = length cs"
    using to_classes_length [OF tc] by simp
  have len1: "length (compress ?valid (map state rows)) = length (compress ?valid cs)"
    using len by (rule length_compress_same)
  have neq: "int ai \<noteq> - 1"
    by simp
  note d = downsample_pairs_snd [OF len1 ds']
  have a: "length states = length labels"
    by (rule d(1))
  have b: "filter (\<lambda>p. snd p \<noteq> int ai) (zip states labels)
      = filter (\<lambda>p. snd p \<noteq> - 1 \<and> snd p \<noteq> int ai) ?ps"
    unfolding d(2) valid_pairs [OF len] by (rule filter_neq_after_neq)
  have c: "filter (\<lambda>p. snd p = int ai) (zip states labels)
      = map fst (filter (\<lambda>(p, r). r > 7 / 10)
            (zip (filter (\<lambda>p. snd p = int ai) ?ps)
                 (fst (rand (length (filter (\<lambda>c. c = int ai) cs)) g))))"
    unfolding d(3) valid_pairs [OF len] valid_count [OF neq]
      filter_eq_after_neq [OF neq, of snd ?ps] ..
  have b': "filter (\<lambda>(s, c). c \<noteq> int ai) (zip states labels)
        = filter (\<lambda>(s, c). c \<noteq> - 1 \<and> c \<noteq> int ai) ?ps"
    using b by (simp only: case_prod_unfold)
  have c': "filter (\<lambda>(s, c). c = int ai) (zip states labels)
        = map fst (filter (\<lambda>(p, r). r > 7 / 10)
            (zip (filter (\<lambda>(s, c). c = int ai) ?ps)
                 (fst (rand (length (filter (\<lambda>c. c = int ai) cs)) g))))"
    using c by (simp only: case_prod_unfold)
  from ai tc a b' c' show ?thesis
    by blast
qed

text \<open>
  Claim C4. Whenever \<^verbatim>\<open>read_data\<close> returns, the table holds \<open>[0, 1, 0]\<close>, at a first
  index \<open>ai\<close> (line 58), and, with the classes that lines 48 to 50 give the shuffled
  transitions: every transition of a class other than \<open>ai\<close> (and other than the sentinel)
  is returned, in order, with its class, so that none of them is discarded; the
  transitions of the class \<open>ai\<close> are paired, in order, with the numbers that
  \<^verbatim>\<open>np.random.rand\<close> returns, and one is returned exactly when its number is above
  \<open>0.7\<close>. (That a uniform draw is at most \<open>0.7\<close> with probability \<open>0.7\<close> is a property of
  the generator, which is an input here.)
\<close>

theorem read_data_downsamples:
  assumes "data_file w = Pickled data"
    and "fst (read_data acts w) = Inr (states, labels)"
  shows "\<exists>ai act_classes.
       index_of acts accelerate = Some ai
     \<and> to_classes acts
          (map action (fst (shuffle (py_random w) (inflate MULTIPLY_RARE_EVENTS data))))
         = Inr act_classes
     \<and> length states = length labels
     \<and> filter (\<lambda>(s, c). c \<noteq> int ai) (zip states labels)
        = filter (\<lambda>(s, c). c \<noteq> - 1 \<and> c \<noteq> int ai)
            (zip (map state (fst (shuffle (py_random w) (inflate MULTIPLY_RARE_EVENTS data))))
               act_classes)
     \<and> filter (\<lambda>(s, c). c = int ai) (zip states labels)
        = map fst (filter (\<lambda>(p, r). r > 7 / 10)
            (zip (filter (\<lambda>(s, c). c = int ai)
                    (zip (map state
                            (fst (shuffle (py_random w) (inflate MULTIPLY_RARE_EVENTS data))))
                       act_classes))
                 (fst (rand (length (filter (\<lambda>c. c = int ai) act_classes)) (np_random w)))))"
  using assms(2) unfolding read_data_def read_data_with_Pickled [OF assms(1)]
  by (rule prepare_thinned)

theorem read_data_downsamples_witness:
  "data_file example_world = Pickled example_data
   \<and> fst (read_data example_actions example_world) = Inr ([0, 1], [5, 1])
   \<and> map state (fst (shuffle (py_random example_world)
         (inflate MULTIPLY_RARE_EVENTS example_data))) = [0, 2, 3, 1]
   \<and> to_classes example_actions
         (map action (fst (shuffle (py_random example_world)
            (inflate MULTIPLY_RARE_EVENTS example_data)))) = Inr [5, - 1, 5, 1]
   \<and> fst (rand 2 (np_random example_world)) = [9 / 10, 1 / 2]
   \<and> (\<exists>ai act_classes.
       index_of example_actions accelerate = Some ai
     \<and> to_classes example_actions
          (map action (fst (shuffle (py_random example_world)
             (inflate MULTIPLY_RARE_EVENTS example_data))))
         = Inr act_classes
     \<and> length [0 :: nat, 1] = length [5 :: int, 1]
     \<and> filter (\<lambda>(s, c). c \<noteq> int ai) (zip [0, 1] [5, 1])
        = filter (\<lambda>(s, c). c \<noteq> - 1 \<and> c \<noteq> int ai)
            (zip (map state (fst (shuffle (py_random example_world)
                    (inflate MULTIPLY_RARE_EVENTS example_data))))
               act_classes)
     \<and> filter (\<lambda>(s, c). c = int ai) (zip [0, 1] [5, 1])
        = map fst (filter (\<lambda>(p, r). r > 7 / 10)
            (zip (filter (\<lambda>(s, c). c = int ai)
                    (zip (map state
                            (fst (shuffle (py_random example_world)
                               (inflate MULTIPLY_RARE_EVENTS example_data))))
                       act_classes))
                 (fst (rand (length (filter (\<lambda>c. c = int ai) act_classes))
                    (np_random example_world))))))"
proof -
  have h1: "data_file example_world = Pickled example_data"
    by (simp add: example_world_def)
  have h2: "fst (read_data example_actions example_world) = Inr ([0, 1], [5, 1])"
    by code_simp
  have v1: "map state (fst (shuffle (py_random example_world)
         (inflate MULTIPLY_RARE_EVENTS example_data))) = [0, 2, 3, 1]"
    by code_simp
  have v2: "to_classes example_actions
         (map action (fst (shuffle (py_random example_world)
            (inflate MULTIPLY_RARE_EVENTS example_data)))) = Inr [5, - 1, 5, 1]"
    by code_simp
  have v3: "fst (rand 2 (np_random example_world)) = [9 / 10, 1 / 2]"
    by code_simp
  show ?thesis
    by (intro conjI h1 h2 v1 v2 v3 read_data_downsamples [OF h1 h2])
qed

end
